theory Spec2Isabelle
  imports Main "HOL-Library.Monad_Syntax"
begin

section \<open>Machine integers and vectors\<close>

text \<open>
  The program works on C++ \<open>int\<close> (32 bits, two's complement) and on \<open>vector<int>\<close>.
  Values are modelled as \<open>int\<close>; the one arithmetic operation of the program that can
  leave the 32-bit range, the sum \<open>dist[u] + GraphGet(u, v)\<close> (and the flat index
  \<open>number_of_nodes * u + v\<close>), is reduced by \<open>wrap32\<close>, the two's complement wrap-around
  of the usual targets. \<open>INT_MAX\<close> is the program's "infinity".
\<close>

definition INT_MAX :: int where
  "INT_MAX = 2147483647"

definition wrap32 :: "int \<Rightarrow> int" where
  "wrap32 x = (x + 2147483648) mod 4294967296 - 2147483648"

text \<open>
  \<open>xs[i]\<close> on a \<open>vector<int>\<close>: reading or writing outside \<open>[0, size)\<close> is undefined
  behaviour. The model makes this the value \<open>None\<close>, which every caller propagates.
\<close>

definition vget :: "int list \<Rightarrow> int \<Rightarrow> int option" where
  "vget xs i = (if 0 \<le> i \<and> i < int (length xs) then Some (xs ! nat i) else None)"

definition vset :: "int list \<Rightarrow> int \<Rightarrow> int \<Rightarrow> int list option" where
  "vset xs i x = (if 0 \<le> i \<and> i < int (length xs) then Some (xs[nat i := x]) else None)"

section \<open>Graph store\<close>

text \<open>The globals \<open>number_of_nodes\<close> (\<open>n\<close>) and \<open>graph\<close> (\<open>g\<close>) are passed explicitly.\<close>

definition max_nodes :: int where
  "max_nodes = 128"

definition no_edge :: int where
  "no_edge = - 1"

definition flat_index :: "int \<Rightarrow> int \<Rightarrow> int \<Rightarrow> int" where
  "flat_index n u v = wrap32 (wrap32 (n * u) + v)"

definition GraphGet :: "int \<Rightarrow> int list \<Rightarrow> int \<Rightarrow> int \<Rightarrow> int option" where
  "GraphGet n g u v = vget g (flat_index n u v)"

definition GraphSet :: "int \<Rightarrow> int list \<Rightarrow> int \<Rightarrow> int \<Rightarrow> int \<Rightarrow> int list option" where
  "GraphSet n g u v c = vset g (flat_index n u v) c"

text \<open>The overload \<open>GraphSet(int i, int c)\<close> used while reading the file.\<close>

definition GraphSet_linear :: "int list \<Rightarrow> int \<Rightarrow> int \<Rightarrow> int list option" where
  "GraphSet_linear g i c = vset g i c"

section \<open>The ordered frontier\<close>

text \<open>
  \<open>ltDist\<close> orders vertices by the pair \<open>(dist[u], u)\<close>. The \<open>set<int, ltDist>\<close> is a list
  kept in the order in which insertion placed its members; \<open>begin()\<close> is its head.
  Insertion, \<open>count\<close> and \<open>erase\<close> by key walk the order with the comparator, as the
  search of the container does, and treat two vertices as the same key when neither is
  below the other.
\<close>

definition ltDist :: "int list \<Rightarrow> int \<Rightarrow> int \<Rightarrow> bool" where
  "ltDist d u v = (d ! nat u < d ! nat v \<or> (\<not> d ! nat v < d ! nat u \<and> u < v))"

fun set_insert :: "int list \<Rightarrow> int \<Rightarrow> int list \<Rightarrow> int list" where
  "set_insert d x [] = [x]"
| "set_insert d x (y # ys) =
     (if ltDist d x y then x # y # ys
      else if ltDist d y x then y # set_insert d x ys
      else y # ys)"

fun set_count :: "int list \<Rightarrow> int \<Rightarrow> int list \<Rightarrow> bool" where
  "set_count d x [] = False"
| "set_count d x (y # ys) =
     (if ltDist d y x then set_count d x ys
      else if ltDist d x y then False
      else True)"

fun set_erase :: "int list \<Rightarrow> int \<Rightarrow> int list \<Rightarrow> int list" where
  "set_erase d x [] = []"
| "set_erase d x (y # ys) =
     (if ltDist d y x then y # set_erase d x ys
      else if ltDist d x y then y # ys
      else ys)"

text \<open>
  The comparator reads \<open>dist\<close> at the vertices it compares. An operation on the set is
  defined only when the key and every member index \<open>dist\<close> inside its bounds.
\<close>

definition keys_ok :: "int list \<Rightarrow> int list \<Rightarrow> bool" where
  "keys_ok d xs = list_all (\<lambda>x. 0 \<le> x \<and> x < int (length d)) xs"

definition q_insert :: "int list \<Rightarrow> int \<Rightarrow> int list \<Rightarrow> int list option" where
  "q_insert d x xs = (if keys_ok d (x # xs) then Some (set_insert d x xs) else None)"

definition q_count :: "int list \<Rightarrow> int \<Rightarrow> int list \<Rightarrow> bool option" where
  "q_count d x xs = (if keys_ok d (x # xs) then Some (set_count d x xs) else None)"

definition q_erase :: "int list \<Rightarrow> int \<Rightarrow> int list \<Rightarrow> int list option" where
  "q_erase d x xs = (if keys_ok d (x # xs) then Some (set_erase d x xs) else None)"

section \<open>The engine: \<open>dijkstra\<close>\<close>

record state =
  dist :: "int list"
  previous_node :: "int list"
  q :: "int list"

text \<open>The first loop of \<open>dijkstra\<close>: every entry below \<open>number_of_nodes\<close> is reset.\<close>

function init_loop :: "int \<Rightarrow> int \<Rightarrow> int list \<Rightarrow> int list \<Rightarrow> (int list \<times> int list) option" where
  "init_loop n i d p =
     (if i < n then
        do {
          d' \<leftarrow> vset d i INT_MAX;
          p' \<leftarrow> vset p i (- 1);
          init_loop n (i + 1) d' p'
        }
      else Some (d, p))"
  by pat_completeness auto
termination
  by (relation "measure (\<lambda>(n, i, d, p). nat (n - i))") auto

text \<open>The body of the inner \<open>for\<close> loop, for one \<open>v\<close>.\<close>

definition relax :: "int \<Rightarrow> int list \<Rightarrow> int \<Rightarrow> int \<Rightarrow> state \<Rightarrow> state option" where
  "relax n g u v st =
     do {
       c \<leftarrow> GraphGet n g u v;
       if c \<noteq> - 1 then
         do {
           du \<leftarrow> vget (dist st) u;
           c' \<leftarrow> GraphGet n g u v;
           let newDist = wrap32 (du + c');
           dv \<leftarrow> vget (dist st) v;
           if newDist < dv then
             do {
               present \<leftarrow> q_count (dist st) v (q st);
               q1 \<leftarrow> (if present then q_erase (dist st) v (q st) else Some (q st));
               d' \<leftarrow> vset (dist st) v newDist;
               p' \<leftarrow> vset (previous_node st) v u;
               q2 \<leftarrow> q_insert d' v q1;
               Some \<lparr>dist = d', previous_node = p', q = q2\<rparr>
             }
           else Some st
         }
       else Some st
     }"

function relax_loop :: "int \<Rightarrow> int list \<Rightarrow> int \<Rightarrow> int \<Rightarrow> state \<Rightarrow> state option" where
  "relax_loop n g u v st =
     (if v < n then
        (case relax n g u v st of
           None \<Rightarrow> None
         | Some st' \<Rightarrow> relax_loop n g u (v + 1) st')
      else Some st)"
  by pat_completeness auto
termination
  by (relation "measure (\<lambda>(n, g, u, v, st). nat (n - v))") auto

text \<open>One pass of the \<open>while\<close> loop: take \<open>*q.begin()\<close>, erase it, relax its row.\<close>

definition iter :: "int \<Rightarrow> int list \<Rightarrow> state \<Rightarrow> state option" where
  "iter n g st =
     (case q st of
        [] \<Rightarrow> Some st
      | u # rest \<Rightarrow> relax_loop n g u 0 (st\<lparr>q := rest\<rparr>))"

text \<open>
  The \<open>while\<close> loop. Its termination does not depend on the graph: a relaxation that
  changes anything strictly lowers one entry of \<open>dist\<close>, which the 32-bit range bounds
  from below, and a pass that changes nothing leaves the frontier one member shorter.
\<close>

definition slack :: "int list \<Rightarrow> nat" where
  "slack d = sum_list (map (\<lambda>x. nat (x + 2147483648)) d)"

function dijkstra_loop :: "int \<Rightarrow> int list \<Rightarrow> state \<Rightarrow> state option" where
  "dijkstra_loop n g st =
     (if q st = [] then Some st
      else (case iter n g st of
              None \<Rightarrow> None
            | Some st' \<Rightarrow> dijkstra_loop n g st'))"
  by pat_completeness auto

definition dijkstra :: "int \<Rightarrow> int list \<Rightarrow> int \<Rightarrow> int list \<Rightarrow> int list \<Rightarrow> state option" where
  "dijkstra n g s d0 p0 =
     do {
       (d, p) \<leftarrow> init_loop n 0 d0 p0;
       d' \<leftarrow> vset d s 0;
       q0 \<leftarrow> q_insert d' s [];
       dijkstra_loop n g \<lparr>dist = d', previous_node = p, q = q0\<rparr>
     }"

section \<open>The caller: \<open>main\<close>\<close>

text \<open>
  \<open>main\<close> sizes the three global vectors with \<open>resize\<close>. They are empty before, so every
  element is value-initialised, which for \<open>int\<close> is \<open>0\<close>.
\<close>

definition create_graph :: "int \<Rightarrow> int list" where
  "create_graph n = replicate (nat (wrap32 (n * n))) 0"

definition create_table :: "int \<Rightarrow> int list" where
  "create_table n = replicate (nat n) 0"

text \<open>
  The text of the file after the vertex count, as \<open>in >> v\<close> meets it: \<open>Num x\<close> is an
  integer literal of value \<open>x\<close>, of any size; \<open>Junk\<close> is text that cannot begin an
  integer. \<open>ws\<close> tells whether white space follows the last token of the file.
\<close>

datatype token = Num int | Junk

text \<open>
  One extraction \<open>in >> v\<close>, on the rest of the file and the flags \<open>eofbit\<close> and
  \<open>failbit\<close>; \<open>v\<close> is \<open>None\<close> while the local has never been assigned.
  \<^item> On a stream that has failed nothing is read and \<open>v\<close> stays as it was.
  \<^item> With only white space left, the end of the file is met: both flags are set and
    \<open>v\<close> stays as it was.
  \<^item> \<open>Junk\<close> is not consumed; \<open>v\<close> becomes \<open>0\<close> and \<open>failbit\<close> is set.
  \<^item> A literal is consumed; outside the range of \<open>int\<close> it is stored as the nearest
    bound and \<open>failbit\<close> is set. Reading it meets the end of the file, and sets
    \<open>eofbit\<close>, exactly when nothing follows it.
\<close>

definition extract_int ::
  "bool \<Rightarrow> token list \<Rightarrow> bool \<Rightarrow> bool \<Rightarrow> int option \<Rightarrow> token list \<times> bool \<times> bool \<times> int option" where
  "extract_int ws toks eof fail v =
     (if fail \<or> eof then (toks, eof, True, v)
      else
        (case toks of
           [] \<Rightarrow> ([], True, True, v)
         | Junk # ts \<Rightarrow> (Junk # ts, False, True, Some 0)
         | Num x # ts \<Rightarrow>
             (ts, ts = [] \<and> \<not> ws, x < - 2147483648 \<or> INT_MAX < x,
              Some (if x < - 2147483648 then - 2147483648
                    else if INT_MAX < x then INT_MAX else x))))"

text \<open>
  The reading loop of \<open>main\<close>: it stops when \<open>in.eof()\<close> holds, and otherwise extracts
  and stores \<open>v\<close>, whether the extraction succeeded or not.
\<close>

function load_loop ::
  "int \<Rightarrow> bool \<Rightarrow> int \<Rightarrow> int list \<Rightarrow> token list \<Rightarrow> bool \<Rightarrow> bool \<Rightarrow> int option \<Rightarrow>
   int list option" where
  "load_loop n ws i g toks eof fail v =
     (if i < wrap32 (n * n) then
        (if eof then Some g
         else
           (case extract_int ws toks eof fail v of
              (toks', eof', fail', v') \<Rightarrow>
                (case v' of
                   None \<Rightarrow> None
                 | Some x \<Rightarrow>
                     do {
                       g' \<leftarrow> GraphSet_linear g i x;
                       load_loop n ws (i + 1) g' toks' eof' fail' v'
                     })))
      else Some g)"
  by pat_completeness auto
termination
  by (relation "measure (\<lambda>(n, ws, i, g, toks, eof, fail, v). nat (wrap32 (n * n) - i))") auto

text \<open>
  The loop starts after \<open>in >> number_of_nodes\<close> has succeeded: \<open>failbit\<close> is clear, and
  \<open>eofbit\<close> is set exactly when nothing at all follows the vertex count.
\<close>

definition load_graph :: "int \<Rightarrow> token list \<Rightarrow> bool \<Rightarrow> int list option" where
  "load_graph n toks ws =
     load_loop n ws 0 (create_graph n) toks (toks = [] \<and> \<not> ws) False None"

text \<open>The source read from the terminal is replaced by \<open>0\<close> when it is out of range.\<close>

definition main_source :: "int \<Rightarrow> int \<Rightarrow> int" where
  "main_source n src = (if src < 0 \<or> src \<ge> n then 0 else src)"

section \<open>Vocabulary of the properties\<close>

text \<open>Well-formed input of \<open>dijkstra\<close>: what \<open>main\<close> establishes before the call.\<close>

definition wf_graph :: "int \<Rightarrow> int list \<Rightarrow> bool" where
  "wf_graph n g = (0 < n \<and> n * n \<le> INT_MAX \<and> int (length g) = n * n)"

definition wf_tables :: "int \<Rightarrow> int list \<Rightarrow> int list \<Rightarrow> bool" where
  "wf_tables n d p = (int (length d) = n \<and> int (length p) = n)"

definition valid_source :: "int \<Rightarrow> int \<Rightarrow> bool" where
  "valid_source n s = (0 \<le> s \<and> s < n)"

text \<open>Every stored entry is the "no edge" mark or a non-negative cost.\<close>

definition nonneg_costs :: "int list \<Rightarrow> bool" where
  "nonneg_costs g = list_all (\<lambda>c. c = - 1 \<or> 0 \<le> c) g"

text \<open>The entry of the matrix at row \<open>u\<close>, column \<open>v\<close>, for vertices in range.\<close>

definition cost :: "int \<Rightarrow> int list \<Rightarrow> int \<Rightarrow> int \<Rightarrow> int" where
  "cost n g u v = g ! nat (n * u + v)"

text \<open>
  A walk is a non-empty list of vertices in range, each joined to the next by a real
  edge; its cost is the exact (unbounded) sum of the edge costs.
\<close>

fun walk_ok :: "int \<Rightarrow> int list \<Rightarrow> int list \<Rightarrow> bool" where
  "walk_ok n g [] = False"
| "walk_ok n g [u] = (0 \<le> u \<and> u < n)"
| "walk_ok n g (u # v # vs) =
     (0 \<le> u \<and> u < n \<and> 0 \<le> v \<and> v < n \<and> cost n g u v \<noteq> - 1 \<and> walk_ok n g (v # vs))"


definition reachable :: "int \<Rightarrow> int list \<Rightarrow> int \<Rightarrow> int \<Rightarrow> bool" where
  "reachable n g s v = (\<exists>p. walk_ok n g (s # p) \<and> last (s # p) = v)"



text \<open>The states in which the \<open>while\<close> loop of \<open>dijkstra n g s\<close> tests its condition.\<close>

inductive loop_state :: "int \<Rightarrow> int list \<Rightarrow> int \<Rightarrow> int list \<Rightarrow> int list \<Rightarrow> state \<Rightarrow> bool"
  for n g s d0 p0 where
  loop_start:
    "init_loop n 0 d0 p0 = Some (d, p) \<Longrightarrow> vset d s 0 = Some d' \<Longrightarrow>
     q_insert d' s [] = Some q0 \<Longrightarrow>
     loop_state n g s d0 p0 \<lparr>dist = d', previous_node = p, q = q0\<rparr>"
| loop_step:
    "loop_state n g s d0 p0 st \<Longrightarrow> q st \<noteq> [] \<Longrightarrow> iter n g st = Some st' \<Longrightarrow>
     loop_state n g s d0 p0 st'"

text \<open>
  The rule of extraction in the words of the specification: \<open>u\<close> is the frontier member
  with the smallest key \<open>(dist[u], u)\<close>, so of members with equal \<open>dist\<close> the one with the
  smaller index. A pass that follows the rule takes that member out of the frontier and
  relaxes its row; a run that follows the rule makes such passes until the frontier is
  empty.
\<close>

definition least_member :: "int list \<Rightarrow> int list \<Rightarrow> int \<Rightarrow> bool" where
  "least_member d xs u =
     (u \<in> set xs \<and>
      (\<forall>w \<in> set xs. w \<noteq> u \<longrightarrow> d ! nat u < d ! nat w \<or> (d ! nat u = d ! nat w \<and> u < w)))"

definition rule_pass :: "int \<Rightarrow> int list \<Rightarrow> state \<Rightarrow> state \<Rightarrow> bool" where
  "rule_pass n g st st' =
     (\<exists>u. least_member (dist st) (q st) u \<and>
          relax_loop n g u 0 (st\<lparr>q := remove1 u (q st)\<rparr>) = Some st')"

inductive rule_run :: "int \<Rightarrow> int list \<Rightarrow> state \<Rightarrow> state \<Rightarrow> bool" for n g where
  rule_done: "q st = [] \<Longrightarrow> rule_run n g st st"
| rule_more: "rule_pass n g st st' \<Longrightarrow> rule_run n g st' r \<Longrightarrow> rule_run n g st r"

text \<open>A literal that \<open>int\<close> can hold.\<close>

definition plain_token :: "token \<Rightarrow> bool" where
  "plain_token t = (case t of Num x \<Rightarrow> - 2147483648 \<le> x \<and> x \<le> INT_MAX | Junk \<Rightarrow> False)"

section \<open>Vocabulary of the proofs\<close>

text \<open>The state in which \<open>dijkstra n g s\<close> enters its \<open>while\<close> loop.\<close>

definition start_state :: "int \<Rightarrow> int \<Rightarrow> state" where
  "start_state n s =
     \<lparr>dist = (replicate (nat n) INT_MAX)[nat s := 0],
      previous_node = replicate (nat n) (- 1), q = [s]\<rparr>"

text \<open>
  The tables have \<open>number_of_nodes\<close> entries and the frontier holds vertices in range;
  \<open>candidate\<close> is \<open>newDist\<close>, \<open>improves\<close> the test that guards the update, \<open>relaxed\<close> the
  state after the update.
\<close>

definition wf_state :: "int \<Rightarrow> state \<Rightarrow> bool" where
  "wf_state n st =
     (int (length (dist st)) = n \<and> int (length (previous_node st)) = n \<and>
      (\<forall>x \<in> set (q st). 0 \<le> x \<and> x < n))"

definition candidate :: "int \<Rightarrow> int list \<Rightarrow> int \<Rightarrow> int \<Rightarrow> state \<Rightarrow> int" where
  "candidate n g u v st = wrap32 (dist st ! nat u + cost n g u v)"

definition improves :: "int \<Rightarrow> int list \<Rightarrow> int \<Rightarrow> int \<Rightarrow> state \<Rightarrow> bool" where
  "improves n g u v st = (cost n g u v \<noteq> - 1 \<and> candidate n g u v st < dist st ! nat v)"

definition without :: "int list \<Rightarrow> int \<Rightarrow> int list \<Rightarrow> int list" where
  "without d v xs = (if set_count d v xs then set_erase d v xs else xs)"

definition relaxed :: "int \<Rightarrow> int list \<Rightarrow> int \<Rightarrow> int \<Rightarrow> state \<Rightarrow> state" where
  "relaxed n g u v st =
     \<lparr>dist = (dist st)[nat v := candidate n g u v st],
      previous_node = (previous_node st)[nat v := u],
      q = set_insert ((dist st)[nat v := candidate n g u v st]) v (without (dist st) v (q st))\<rparr>"

text \<open>The frontier is ordered by the comparator, under the current \<open>dist\<close>.\<close>

definition ordered_state :: "int \<Rightarrow> state \<Rightarrow> bool" where
  "ordered_state n st = (wf_state n st \<and> sorted_wrt (ltDist (dist st)) (q st))"

text \<open>Whatever the run has touched can be reached from the source.\<close>

definition touched :: "state \<Rightarrow> int \<Rightarrow> bool" where
  "touched st v =
     (dist st ! nat v \<noteq> INT_MAX \<or> previous_node st ! nat v \<noteq> - 1 \<or> v \<in> set (q st))"

definition reach_inv :: "int \<Rightarrow> int list \<Rightarrow> int \<Rightarrow> state \<Rightarrow> bool" where
  "reach_inv n g s st =
     (wf_state n st \<and> (\<forall>v. 0 \<le> v \<and> v < n \<and> touched st v \<longrightarrow> reachable n g s v))"

text \<open>
  Every edge leaving \<open>u\<close> is relaxed, in exact arithmetic; \<open>settled_below\<close> says so for the
  targets below \<open>k\<close>, the ones the inner loop has passed.
\<close>

definition settled_below :: "int \<Rightarrow> int list \<Rightarrow> state \<Rightarrow> int \<Rightarrow> int \<Rightarrow> bool" where
  "settled_below n g st u k =
     (\<forall>v. 0 \<le> v \<and> v < k \<and> v < n \<and> cost n g u v \<noteq> - 1 \<longrightarrow>
          dist st ! nat v \<le> dist st ! nat u + cost n g u v)"

definition in_int_range :: "state \<Rightarrow> bool" where
  "in_int_range st = (\<forall>x \<in> set (dist st). - 2147483648 \<le> x \<and> x \<le> INT_MAX)"

definition edge_inv :: "int \<Rightarrow> int list \<Rightarrow> state \<Rightarrow> bool" where
  "edge_inv n g st =
     (wf_state n st \<and> in_int_range st \<and>
      (\<forall>u. 0 \<le> u \<and> u < n \<and> u \<notin> set (q st) \<longrightarrow> settled_below n g st u n))"

definition edge_inv_at :: "int \<Rightarrow> int list \<Rightarrow> int \<Rightarrow> int \<Rightarrow> state \<Rightarrow> bool" where
  "edge_inv_at n g u k st =
     (wf_state n st \<and> in_int_range st \<and>
      (\<forall>w. 0 \<le> w \<and> w < n \<and> w \<noteq> u \<and> w \<notin> set (q st) \<longrightarrow> settled_below n g st w n) \<and>
      (u \<in> set (q st) \<or> settled_below n g st u k))"










section \<open>Termination of the main loop\<close>

declare init_loop.simps [simp del] relax_loop.simps [simp del] load_loop.simps [simp del]

lemma wrap32_range: "- 2147483648 \<le> wrap32 x \<and> wrap32 x < 2147483648"
proof -
  have "0 \<le> (x + 2147483648) mod 4294967296" by simp
  moreover have "(x + 2147483648) mod 4294967296 < 4294967296" by simp
  ultimately show ?thesis unfolding wrap32_def by linarith
qed

lemma wrap32_id: "- 2147483648 \<le> x \<Longrightarrow> x < 2147483648 \<Longrightarrow> wrap32 x = x"
  unfolding wrap32_def by simp

lemma slack_update:
  assumes "i < length d" and "- 2147483648 \<le> x" and "x < d ! i"
  shows "slack (d[i := x]) < slack d"
proof -
  let ?f = "\<lambda>x::int. nat (x + 2147483648)"
  have lt: "?f x < ?f (d ! i)" using assms by simp
  have "sum_list ((map ?f d)[i := ?f x]) = sum_list (map ?f d) + ?f x - (map ?f d) ! i"
    using assms(1) by (simp add: sum_list_update)
  moreover have "(map ?f d) ! i \<le> sum_list (map ?f d)"
    using assms(1) by (simp add: member_le_sum_list)
  moreover have "(map ?f d) ! i = ?f (d ! i)" using assms(1) by simp
  ultimately have "sum_list ((map ?f d)[i := ?f x]) < sum_list (map ?f d)"
    using lt by linarith
  then show ?thesis by (simp add: slack_def map_update)
qed

lemma relax_measure:
  assumes "relax n g u v st = Some st'"
  shows "st' = st \<or> slack (dist st') < slack (dist st)"
proof (cases "st' = st")
  case False
  with assms obtain du c dv d' p' q2 where
     dv: "vget (dist st) v = Some dv" and lt: "wrap32 (du + c) < dv"
     and d': "vset (dist st) v (wrap32 (du + c)) = Some d'"
     and st': "st' = \<lparr>dist = d', previous_node = p', q = q2\<rparr>"
    by (auto simp: relax_def Let_def bind_eq_Some_conv split: if_splits)
  then show ?thesis using wrap32_range[of "du + c"]
    by (auto simp: vget_def vset_def intro!: slack_update split: if_splits)
qed simp

lemma relax_loop_measure:
  "relax_loop n g u v st = Some st' \<Longrightarrow> st' = st \<or> slack (dist st') < slack (dist st)"
proof (induction n g u v st rule: relax_loop.induct)
  case (1 n g u v st)
  show ?case
  proof (cases "v < n")
    case True
    then obtain st1 where r: "relax n g u v st = Some st1"
      and l: "relax_loop n g u (v + 1) st1 = Some st'"
      using "1.prems" by (subst (asm) relax_loop.simps) (auto split: option.splits)
    from "1.IH"[OF True r l] relax_measure[OF r] show ?thesis by auto
  next
    case False
    then show ?thesis using "1.prems" by (subst (asm) relax_loop.simps) simp
  qed
qed

termination dijkstra_loop
proof (relation "inv_image (less_than <*lex*> less_than)
    (\<lambda>(n, g, st). (slack (dist st), length (q st)))", goal_cases)
  case 1
  show ?case by (intro wf_inv_image wf_lex_prod wf_less_than)
next
  case (2 n g st st')
  then obtain u rest where qs: "q st = u # rest" by (cases "q st") auto
  with 2 have "relax_loop n g u 0 (st\<lparr>q := rest\<rparr>) = Some st'"
    by (simp add: iter_def)
  from relax_loop_measure[OF this] qs show ?case by auto
qed

declare dijkstra_loop.simps [simp del]

section \<open>Indices of the matrix\<close>

lemma flat_bounds:
  assumes "0 < (n::int)" "0 \<le> u" "u < n" "0 \<le> v" "v < n"
  shows "0 \<le> n * u" "n * u + v < n * n" "0 \<le> n * u + v"
proof -
  show a: "0 \<le> n * u" using assms by (simp add: zero_le_mult_iff)
  have "n * u \<le> n * (n - 1)" using assms by (intro mult_left_mono) auto
  then show "n * u + v < n * n" using assms by (simp add: algebra_simps)
  show "0 \<le> n * u + v" using a assms by simp
qed

lemma flat_index_eq:
  assumes "wf_graph n g" "0 \<le> u" "u < n" "0 \<le> v" "v < n"
  shows "flat_index n u v = n * u + v"
proof -
  have n: "0 < n" and m: "n * n \<le> 2147483647"
    using assms(1) by (auto simp: wf_graph_def INT_MAX_def)
  note b = flat_bounds[OF n assms(2-5)]
  have "n * u \<le> n * u + v" using assms by simp
  then have "wrap32 (n * u) = n * u" using b m by (intro wrap32_id) linarith+
  moreover have "wrap32 (n * u + v) = n * u + v" using b m by (intro wrap32_id) linarith+
  ultimately show ?thesis by (simp add: flat_index_def)
qed

lemma GraphGet_cost:
  assumes "wf_graph n g" "0 \<le> u" "u < n" "0 \<le> v" "v < n"
  shows "GraphGet n g u v = Some (cost n g u v)"
proof -
  have n: "0 < n" and l: "int (length g) = n * n"
    using assms(1) by (auto simp: wf_graph_def)
  note b = flat_bounds[OF n assms(2-5)]
  show ?thesis
    using b l by (simp add: GraphGet_def flat_index_eq[OF assms] vget_def cost_def)
qed

section \<open>The initialisation loop\<close>

lemma init_loop_gen:
  assumes "0 \<le> i" "i \<le> n" "int (length d) = n" "int (length p) = n"
  shows "init_loop n i d p =
    Some (take (nat i) d @ replicate (nat (n - i)) INT_MAX,
          take (nat i) p @ replicate (nat (n - i)) (- 1))"
  using assms
proof (induction n i d p rule: init_loop.induct)
  case (1 n i d p)
  show ?case
  proof (cases "i < n")
    case True
    have li: "nat i < length d" "nat i < length p" using True 1 by auto
    have vs: "vset d i INT_MAX = Some (d[nat i := INT_MAX])"
      "vset p i (- 1) = Some (p[nat i := - 1])"
      using True 1 by (auto simp: vset_def)
    have ih: "init_loop n (i + 1) (d[nat i := INT_MAX]) (p[nat i := - 1]) =
      Some (take (nat (i + 1)) (d[nat i := INT_MAX]) @ replicate (nat (n - (i + 1))) INT_MAX,
            take (nat (i + 1)) (p[nat i := - 1]) @ replicate (nat (n - (i + 1))) (- 1))"
      using "1.IH"[OF True vs(1) vs(2)] True 1 by simp
    have s: "nat (i + 1) = Suc (nat i)" using 1 by simp
    have r: "nat (n - i) = Suc (nat (n - (i + 1)))" using True 1 by simp
    have t: "take (Suc (nat i)) (d[nat i := INT_MAX]) = take (nat i) d @ [INT_MAX]"
      "take (Suc (nat i)) (p[nat i := - 1]) = take (nat i) p @ [- 1]"
      using li by (simp_all add: take_Suc_conv_app_nth)
    show ?thesis
      by (subst init_loop.simps) (simp add: True vs ih s r t)
  next
    case False
    then have "i = n" using 1 by simp
    then show ?thesis using 1 by (subst init_loop.simps) simp
  qed
qed

lemma init_loop_eq:
  assumes "wf_tables n d p" "0 \<le> n"
  shows "init_loop n 0 d p = Some (replicate (nat n) INT_MAX, replicate (nat n) (- 1))"
  using init_loop_gen[of 0 n d p] assms by (simp add: wf_tables_def)

lemma dijkstra_eq:
  assumes "wf_tables n d0 p0" "valid_source n s"
  shows "dijkstra n g s d0 p0 = dijkstra_loop n g (start_state n s)"
  using assms init_loop_eq[of n d0 p0]
  by (simp add: dijkstra_def valid_source_def wf_tables_def vset_def q_insert_def keys_ok_def start_state_def)

section \<open>Lifting invariants through the loops\<close>

lemma relax_loop_inv:
  "(\<And>v st st'. P st \<Longrightarrow> 0 \<le> v \<Longrightarrow> v < n \<Longrightarrow> relax n g u v st = Some st' \<Longrightarrow> P st') \<Longrightarrow>
   P st \<Longrightarrow> 0 \<le> v \<Longrightarrow> relax_loop n g u v st = Some st' \<Longrightarrow> P st'"
proof (induction n g u v st rule: relax_loop.induct)
  case (1 n g u v st)
  note step = "1.prems"(1)
  show ?case
  proof (cases "v < n")
    case True
    then obtain st1 where r: "relax n g u v st = Some st1"
      and l: "relax_loop n g u (v + 1) st1 = Some st'"
      using "1.prems"(4) by (subst (asm) relax_loop.simps) (auto split: option.splits)
    have "P st1" using step[OF "1.prems"(2,3) True r] .
    then show ?thesis using "1.IH"[OF True r step _ _ l] "1.prems"(3) by simp
  next
    case False
    then show ?thesis using "1.prems" by (subst (asm) relax_loop.simps) simp
  qed
qed

lemma relax_loop_inv_idx:
  "(\<And>v st st'. P v st \<Longrightarrow> 0 \<le> v \<Longrightarrow> v < n \<Longrightarrow> relax n g u v st = Some st' \<Longrightarrow> P (v + 1) st') \<Longrightarrow>
   P v st \<Longrightarrow> 0 \<le> v \<Longrightarrow> v \<le> n \<Longrightarrow> relax_loop n g u v st = Some st' \<Longrightarrow> P n st'"
proof (induction n g u v st rule: relax_loop.induct)
  case (1 n g u v st)
  note step = "1.prems"(1)
  show ?case
  proof (cases "v < n")
    case True
    then obtain st1 where r: "relax n g u v st = Some st1"
      and l: "relax_loop n g u (v + 1) st1 = Some st'"
      using "1.prems"(5) by (subst (asm) relax_loop.simps) (auto split: option.splits)
    have "P (v + 1) st1" using step[OF "1.prems"(2,3) True r] .
    then show ?thesis using "1.IH"[OF True r step _ _ _ l] "1.prems"(3) True by simp
  next
    case False
    then have "v = n" using "1.prems"(4) by simp
    then show ?thesis using "1.prems"(2,5) by (subst (asm) relax_loop.simps) simp
  qed
qed

lemma relax_loop_total:
  "(\<And>v st. P st \<Longrightarrow> 0 \<le> v \<Longrightarrow> v < n \<Longrightarrow> \<exists>st'. relax n g u v st = Some st' \<and> P st') \<Longrightarrow>
   P st \<Longrightarrow> 0 \<le> v \<Longrightarrow> \<exists>st'. relax_loop n g u v st = Some st' \<and> P st'"
proof (induction n g u v st rule: relax_loop.induct)
  case (1 n g u v st)
  note step = "1.prems"(1)
  show ?case
  proof (cases "v < n")
    case True
    from step[OF "1.prems"(2,3) True] obtain st1 where
      r: "relax n g u v st = Some st1" and p: "P st1" by blast
    from "1.IH"[OF True r step p] "1.prems"(3) obtain st' where
      "relax_loop n g u (v + 1) st1 = Some st' \<and> P st'" by auto
    then show ?thesis using True r by (subst relax_loop.simps) simp
  next
    case False
    then show ?thesis using "1.prems" by (subst relax_loop.simps) simp
  qed
qed

lemma dijkstra_loop_inv:
  "(\<And>st st'. I st \<Longrightarrow> q st \<noteq> [] \<Longrightarrow> iter n g st = Some st' \<Longrightarrow> I st') \<Longrightarrow>
   I st \<Longrightarrow> dijkstra_loop n g st = Some r \<Longrightarrow> I r \<and> q r = []"
proof (induction n g st rule: dijkstra_loop.induct)
  case (1 n g st)
  note step = "1.prems"(1)
  show ?case
  proof (cases "q st = []")
    case True
    then show ?thesis using "1.prems" by (subst (asm) dijkstra_loop.simps) simp
  next
    case False
    then obtain st1 where i: "iter n g st = Some st1"
      and l: "dijkstra_loop n g st1 = Some r"
      using "1.prems"(3) by (subst (asm) dijkstra_loop.simps) (auto split: option.splits)
    show ?thesis using "1.IH"[OF False i step _ l] step[OF "1.prems"(2) False i] by simp
  qed
qed

lemma dijkstra_loop_total:
  "(\<And>st. I st \<Longrightarrow> q st \<noteq> [] \<Longrightarrow> \<exists>st'. iter n g st = Some st' \<and> I st') \<Longrightarrow>
   I st \<Longrightarrow> \<exists>r. dijkstra_loop n g st = Some r"
proof (induction n g st rule: dijkstra_loop.induct)
  case (1 n g st)
  note step = "1.prems"(1)
  show ?case
  proof (cases "q st = []")
    case True
    then show ?thesis by (subst dijkstra_loop.simps) simp
  next
    case False
    from step[OF "1.prems"(2) False] obtain st1 where
      i: "iter n g st = Some st1" and p: "I st1" by blast
    from "1.IH"[OF False i step p] show ?thesis using False i by (subst dijkstra_loop.simps) simp
  qed
qed

section \<open>The comparator and the set operations\<close>

lemma ltDist_irrefl: "\<not> ltDist d x x"
  by (simp add: ltDist_def)

lemma ltDist_same: "\<not> ltDist d x y \<Longrightarrow> \<not> ltDist d y x \<Longrightarrow> x = y"
  by (auto simp: ltDist_def)

lemma ltDist_trans: "ltDist d x y \<Longrightarrow> ltDist d y z \<Longrightarrow> ltDist d x z"
  by (auto simp: ltDist_def)

lemma ltDist_key: "ltDist d x y \<longleftrightarrow> d ! nat x < d ! nat y \<or> (d ! nat x = d ! nat y \<and> x < y)"
  by (auto simp: ltDist_def)

lemma set_insert_set: "set (set_insert d x ys) = insert x (set ys)"
  by (induction ys) (auto dest: ltDist_same)

lemma set_erase_subset: "set (set_erase d x ys) \<subseteq> set ys"
  by (induction ys) auto

lemma set_erase_keeps: "y \<in> set ys \<Longrightarrow> y \<noteq> x \<Longrightarrow> y \<in> set (set_erase d x ys)"
  by (induction ys) (auto dest: ltDist_same)

lemma without_subset: "set (without d x ys) \<subseteq> set ys"
  using set_erase_subset by (auto simp: without_def)

lemma without_keeps: "y \<in> set ys \<Longrightarrow> y \<noteq> x \<Longrightarrow> y \<in> set (without d x ys)"
  by (simp add: without_def set_erase_keeps)

lemma sorted_set_insert:
  "sorted_wrt (ltDist d) ys \<Longrightarrow> sorted_wrt (ltDist d) (set_insert d x ys)"
proof (induction ys)
  case Nil
  then show ?case by simp
next
  case (Cons y ys)
  show ?case
  proof (cases "ltDist d x y")
    case True
    then have "\<forall>z \<in> set ys. ltDist d x z"
      using Cons.prems by (auto intro: ltDist_trans)
    then show ?thesis using True Cons.prems by simp
  next
    case False
    then show ?thesis using Cons by (auto simp: set_insert_set)
  qed
qed

lemma sorted_set_count:
  "sorted_wrt (ltDist d) ys \<Longrightarrow> set_count d x ys \<longleftrightarrow> x \<in> set ys"
proof (induction ys)
  case Nil
  then show ?case by simp
next
  case (Cons y ys)
  have a: "ltDist d y x \<Longrightarrow> x \<noteq> y" using ltDist_irrefl by auto
  have b: "ltDist d x y \<Longrightarrow> x \<noteq> y" using ltDist_irrefl by auto
  have c: "ltDist d x y \<Longrightarrow> x \<notin> set ys"
  proof
    assume "ltDist d x y" and "x \<in> set ys"
    then have "ltDist d y x" using Cons.prems by simp
    with \<open>ltDist d x y\<close> have "ltDist d x x" by (rule ltDist_trans)
    then show False by (simp add: ltDist_irrefl)
  qed
  show ?case using Cons a b c by (auto dest: ltDist_same)
qed

lemma sorted_set_erase:
  "sorted_wrt (ltDist d) ys \<Longrightarrow>
   sorted_wrt (ltDist d) (set_erase d x ys) \<and> set (set_erase d x ys) = set ys - {x}"
proof (induction ys)
  case Nil
  then show ?case by simp
next
  case (Cons y ys)
  have irr: "\<And>a. \<not> ltDist d a a" by (rule ltDist_irrefl)
  have ynot: "y \<notin> set ys" using Cons.prems irr by auto
  show ?case
  proof (cases "ltDist d y x")
    case True
    then have "x \<noteq> y" using irr by auto
    then show ?thesis using True Cons set_erase_subset[of d x ys] by auto
  next
    case False
    show ?thesis
    proof (cases "ltDist d x y")
      case True
      then have "x \<noteq> y" using irr by auto
      moreover have "x \<notin> set ys"
      proof
        assume "x \<in> set ys"
        then have "ltDist d y x" using Cons.prems by simp
        with True have "ltDist d x x" by (rule ltDist_trans)
        then show False by (simp add: irr)
      qed
      ultimately show ?thesis using True False Cons.prems by auto
    next
      case F2: False
      then have "x = y" using False by (rule ltDist_same)
      then show ?thesis using False F2 Cons.prems ynot by auto
    qed
  qed
qed

lemma sorted_without:
  assumes "sorted_wrt (ltDist d) ys"
  shows "sorted_wrt (ltDist d) (without d x ys)" and "set (without d x ys) = set ys - {x}"
  using sorted_set_erase[OF assms, of x] sorted_set_count[OF assms, of x] assms
  by (auto simp: without_def)

lemma sorted_ltDist_cong:
  assumes "\<forall>x \<in> set ys. d' ! nat x = d ! nat x"
  shows "sorted_wrt (ltDist d') ys = sorted_wrt (ltDist d) ys"
  using assms by (induction ys) (auto simp: ltDist_def)

section \<open>The relaxation step in closed form\<close>

lemma keys_ok_iff: "keys_ok d xs \<longleftrightarrow> (\<forall>x \<in> set xs. 0 \<le> x \<and> x < int (length d))"
  by (simp add: keys_ok_def list_all_iff)

lemma relax_eq:
  assumes g: "wf_graph n g" and st: "wf_state n st"
    and u: "0 \<le> u" "u < n" and v: "0 \<le> v" "v < n"
  shows "relax n g u v st = Some (if improves n g u v st then relaxed n g u v st else st)"
proof -
  have gg: "GraphGet n g u v = Some (cost n g u v)"
    using GraphGet_cost[OF g u v] .
  have du: "vget (dist st) u = Some (dist st ! nat u)"
    and dv: "vget (dist st) v = Some (dist st ! nat v)"
    using st u v by (auto simp: wf_state_def vget_def)
  have k: "keys_ok (dist st) (v # q st)"
    using st v by (auto simp: keys_ok_iff wf_state_def)
  have qc: "q_count (dist st) v (q st) = Some (set_count (dist st) v (q st))"
    using k by (simp add: q_count_def)
  have qe: "(if set_count (dist st) v (q st) then q_erase (dist st) v (q st) else Some (q st))
      = Some (without (dist st) v (q st))"
    using k by (simp add: q_erase_def without_def)
  have qi: "q_insert ((dist st)[nat v := x]) v (without (dist st) v (q st)) =
      Some (set_insert ((dist st)[nat v := x]) v (without (dist st) v (q st)))" for x
    using st v without_subset[of "dist st" v "q st"]
    by (auto simp: q_insert_def keys_ok_iff wf_state_def)
  have vs: "vset (dist st) v x = Some ((dist st)[nat v := x])"
    "vset (previous_node st) v y = Some ((previous_node st)[nat v := y])" for x y
    using st v by (auto simp: wf_state_def vset_def)
  show ?thesis
    by (simp add: relax_def gg du dv vs qc qe qi Let_def improves_def candidate_def relaxed_def)
qed

lemma wf_state_relaxed:
  assumes "wf_state n st" "0 \<le> v" "v < n"
  shows "wf_state n (relaxed n g u v st)"
  using assms without_subset[of "dist st" v "q st"]
  by (auto simp: wf_state_def relaxed_def set_insert_set)

lemma relax_wf_state:
  assumes "wf_graph n g" "wf_state n st" "0 \<le> u" "u < n" "0 \<le> v" "v < n"
  shows "\<exists>st'. relax n g u v st = Some st' \<and> wf_state n st'"
  using relax_eq[OF assms] wf_state_relaxed[OF assms(2,5,6)] assms(2) by simp

lemma relax_loop_wf_state:
  assumes "wf_graph n g" "wf_state n st" "0 \<le> u" "u < n"
  shows "\<exists>st'. relax_loop n g u 0 st = Some st' \<and> wf_state n st'"
  by (rule relax_loop_total[where P = "wf_state n"])
     (use assms relax_wf_state in auto)

lemma iter_wf_state:
  assumes "wf_graph n g" "wf_state n st"
  shows "\<exists>st'. iter n g st = Some st' \<and> wf_state n st'"
proof (cases "q st")
  case Nil
  then show ?thesis using assms by (simp add: iter_def)
next
  case (Cons u rest)
  then have "wf_state n (st\<lparr>q := rest\<rparr>)" "0 \<le> u" "u < n"
    using assms(2) by (auto simp: wf_state_def)
  from relax_loop_wf_state[OF assms(1) this] show ?thesis using Cons by (simp add: iter_def)
qed

lemma wf_state_start:
  assumes "0 < n" "valid_source n s"
  shows "wf_state n (start_state n s)"
  using assms by (auto simp: wf_state_def start_state_def valid_source_def)

lemma dijkstra_total:
  assumes "wf_graph n g" "wf_tables n d0 p0" "valid_source n s"
  shows "\<exists>r. dijkstra n g s d0 p0 = Some r"
proof -
  have n: "0 < n" using assms(1) by (simp add: wf_graph_def)
  have "\<exists>r. dijkstra_loop n g (start_state n s) = Some r"
    by (rule dijkstra_loop_total[where I = "wf_state n"])
       (use assms iter_wf_state wf_state_start[OF n] in auto)
  then show ?thesis by (simp add: dijkstra_eq[OF assms(2,3)])
qed

section \<open>Evaluating concrete runs\<close>

lemmas run_simps = dijkstra_def dijkstra_loop.simps iter_def relax_loop.simps relax_def
  init_loop.simps GraphGet_def flat_index_def wrap32_def vget_def vset_def
  q_insert_def q_count_def q_erase_def keys_ok_def ltDist_def INT_MAX_def

lemmas load_simps = max_nodes_def load_graph_def create_graph_def create_table_def
  load_loop.simps extract_int_def GraphSet_linear_def vset_def wrap32_def INT_MAX_def
  eval_nat_numeral

section \<open>Bounds of the graph store\<close>

text \<open>
  Claim C7 as stated fails: with two vertices, \<open>GraphGet(0, 2)\<close> has its column out of
  range, yet it reads the stored entry of row 1, column 0, and \<open>GraphSet(0, 2, 99)\<close>
  overwrites that entry.
\<close>

theorem graph_access_counterexample:
  "GraphGet 2 [10, 11, 12, 13] 0 2 = Some 12 \<and>
   GraphSet 2 [10, 11, 12, 13] 0 2 99 = Some [10, 11, 99, 13]"
  by (simp add: GraphGet_def GraphSet_def flat_index_def wrap32_def vget_def vset_def)

text \<open>
  Claim C7, amended. The store checks neither \<open>u\<close> nor \<open>v\<close>: \<open>GraphGet\<close> and \<open>GraphSet\<close>
  access the flat slot \<open>number_of_nodes * u + v\<close> whenever that slot lies inside the
  vector, also when \<open>u\<close> or \<open>v\<close> alone is out of range, and \<open>GraphSet(i, c)\<close> accesses slot
  \<open>i\<close>; a slot outside the vector is an access out of bounds (\<open>None\<close>), not a reported
  error.
\<close>

theorem graph_access_unchecked:
  assumes "- 2147483648 \<le> n * u" and "n * u < 2147483648"
    and "- 2147483648 \<le> n * u + v" and "n * u + v < 2147483648"
  shows "GraphGet n g u v =
           (if 0 \<le> n * u + v \<and> n * u + v < int (length g)
            then Some (g ! nat (n * u + v)) else None) \<and>
         GraphSet n g u v c =
           (if 0 \<le> n * u + v \<and> n * u + v < int (length g)
            then Some (g[nat (n * u + v) := c]) else None) \<and>
         GraphSet_linear g i c =
           (if 0 \<le> i \<and> i < int (length g) then Some (g[nat i := c]) else None)"
proof -
  have "flat_index n u v = n * u + v"
    using assms by (simp add: flat_index_def wrap32_id)
  then show ?thesis
    by (simp add: GraphGet_def GraphSet_def GraphSet_linear_def vget_def vset_def)
qed

theorem graph_access_unchecked_witness:
  "GraphGet 2 [10, 11, 12, 13] 1 (- 1) = Some 11 \<and>
   GraphSet 2 [10, 11, 12, 13] 1 (- 1) 7 = Some [10, 7, 12, 13] \<and>
   GraphSet_linear [10, 11, 12, 13] 4 7 = None"
  using graph_access_unchecked[of 2 1 "- 1" "[10, 11, 12, 13]" 7 4] by simp

section \<open>The frontier stays ordered\<close>

lemma ordered_relaxed:
  assumes o: "ordered_state n st" and v: "0 \<le> v" "v < n"
  shows "ordered_state n (relaxed n g u v st)"
proof -
  let ?d = "dist st" and ?c = "candidate n g u v st"
  let ?w = "without ?d v (q st)"
  have wf: "wf_state n st" and so: "sorted_wrt (ltDist ?d) (q st)"
    using o by (auto simp: ordered_state_def)
  have sw: "sorted_wrt (ltDist ?d) ?w" and set_w: "set ?w = set (q st) - {v}"
    using sorted_without[OF so] by auto
  have "\<forall>x \<in> set ?w. ?d[nat v := ?c] ! nat x = ?d ! nat x"
  proof
    fix x assume "x \<in> set ?w"
    then have "x \<noteq> v" "0 \<le> x" using set_w wf by (auto simp: wf_state_def)
    then have "nat x \<noteq> nat v" using v by simp
    then show "?d[nat v := ?c] ! nat x = ?d ! nat x" by simp
  qed
  from sorted_ltDist_cong[OF this] sw have "sorted_wrt (ltDist (?d[nat v := ?c])) ?w"
    by simp
  then have "sorted_wrt (ltDist (?d[nat v := ?c])) (set_insert (?d[nat v := ?c]) v ?w)"
    by (rule sorted_set_insert)
  then show ?thesis
    using wf_state_relaxed[OF wf v, of g u] by (simp add: ordered_state_def relaxed_def)
qed

lemma ordered_iter:
  assumes g: "wf_graph n g" and o: "ordered_state n st" and i: "iter n g st = Some st'"
  shows "ordered_state n st'"
proof (cases "q st")
  case Nil
  then show ?thesis using o i by (simp add: iter_def)
next
  case (Cons u rest)
  then have u: "0 \<le> u" "u < n" and o': "ordered_state n (st\<lparr>q := rest\<rparr>)"
    using o by (auto simp: ordered_state_def wf_state_def)
  have l: "relax_loop n g u 0 (st\<lparr>q := rest\<rparr>) = Some st'"
    using i Cons by (simp add: iter_def)
  show ?thesis
  proof (rule relax_loop_inv[where P = "ordered_state n", OF _ o' _ l])
    fix v st1 st2
    assume a: "ordered_state n st1" "0 \<le> v" "v < n" "relax n g u v st1 = Some st2"
    then have "wf_state n st1" by (simp add: ordered_state_def)
    from relax_eq[OF g this u a(2,3)] a(4) ordered_relaxed[OF a(1,2,3), of g u] a(1)
    show "ordered_state n st2" by (auto split: if_splits)
  qed simp
qed

lemma loop_state_start:
  assumes "wf_tables n d0 p0" "valid_source n s" "0 < n"
  shows "loop_state n g s d0 p0 (start_state n s)"
proof -
  have i: "init_loop n 0 d0 p0 = Some (replicate (nat n) INT_MAX, replicate (nat n) (- 1))"
    using init_loop_eq[OF assms(1)] assms(3) by simp
  have v: "vset (replicate (nat n) INT_MAX) s 0 = Some ((replicate (nat n) INT_MAX)[nat s := 0])"
    using assms(2) by (simp add: vset_def valid_source_def)
  have k: "q_insert ((replicate (nat n) INT_MAX)[nat s := 0]) s [] = Some [s]"
    using assms(2) by (simp add: q_insert_def keys_ok_def valid_source_def)
  show ?thesis using loop_start[OF i v k] by (simp add: start_state_def)
qed

lemma loop_state_ordered:
  assumes g: "wf_graph n g" and t: "wf_tables n d0 p0" and s: "valid_source n s"
    and l: "loop_state n g s d0 p0 st"
  shows "ordered_state n st"
  using l
proof (induction rule: loop_state.induct)
  case (loop_start d p d' q0)
  have n: "0 < n" using g by (simp add: wf_graph_def)
  have "d = replicate (nat n) INT_MAX \<and> p = replicate (nat n) (- 1)"
    using loop_start(1) init_loop_eq[OF t] n by simp
  then have "\<lparr>dist = d', previous_node = p, q = q0\<rparr> = start_state n s"
    using loop_start(2,3) s
    by (auto simp: vset_def q_insert_def start_state_def valid_source_def split: if_splits)
  then show ?case
    using wf_state_start[OF n s] by (simp add: ordered_state_def start_state_def)
next
  case (loop_step st st')
  then show ?case using ordered_iter[OF g] by blast
qed

section \<open>The extraction rule\<close>

lemma least_member_unique:
  assumes "least_member d xs u" "least_member d xs w"
  shows "u = w"
proof (rule ccontr)
  assume "u \<noteq> w"
  then have "d ! nat u < d ! nat w \<or> (d ! nat u = d ! nat w \<and> u < w)"
    "d ! nat w < d ! nat u \<or> (d ! nat w = d ! nat u \<and> w < u)"
    using assms by (auto simp: least_member_def)
  then show False by auto
qed

lemma sorted_head_least:
  assumes "sorted_wrt (ltDist d) (u # rest)"
  shows "least_member d (u # rest) u"
  using assms by (auto simp: least_member_def ltDist_key)

lemma iter_least:
  assumes o: "ordered_state n st" and ne: "q st \<noteq> []"
  shows "\<exists>u. least_member (dist st) (q st) u \<and>
    iter n g st = relax_loop n g u 0 (st\<lparr>q := remove1 u (q st)\<rparr>)"
proof -
  obtain u rest where c: "q st = u # rest" using ne by (cases "q st") auto
  have "sorted_wrt (ltDist (dist st)) (u # rest)" using o c by (simp add: ordered_state_def)
  then have "least_member (dist st) (q st) u" using sorted_head_least c by simp
  moreover have "iter n g st = relax_loop n g u 0 (st\<lparr>q := remove1 u (q st)\<rparr>)"
    using c by (simp add: iter_def)
  ultimately show ?thesis by blast
qed

lemma rule_pass_unique:
  assumes "rule_pass n g st a" "rule_pass n g st b"
  shows "a = b"
proof -
  from assms obtain u w where
    u: "least_member (dist st) (q st) u" "relax_loop n g u 0 (st\<lparr>q := remove1 u (q st)\<rparr>) = Some a"
    and w: "least_member (dist st) (q st) w" "relax_loop n g w 0 (st\<lparr>q := remove1 w (q st)\<rparr>) = Some b"
    by (auto simp: rule_pass_def)
  have "u = w" using least_member_unique[OF u(1) w(1)] .
  then show ?thesis using u(2) w(2) by simp
qed

lemma rule_pass_nonempty: "rule_pass n g st st' \<Longrightarrow> q st \<noteq> []"
  by (auto simp: rule_pass_def least_member_def)

lemma rule_run_unique:
  "rule_run n g st a \<Longrightarrow> rule_run n g st b \<Longrightarrow> a = b"
proof (induction arbitrary: b rule: rule_run.induct)
  case (rule_done st)
  from rule_done.prems show ?case
  proof (cases rule: rule_run.cases)
    case rule_done
    then show ?thesis by simp
  next
    case (rule_more st')
    then show ?thesis using rule_pass_nonempty \<open>q st = []\<close> by blast
  qed
next
  case (rule_more st st' r)
  from rule_more.prems show ?case
  proof (cases rule: rule_run.cases)
    case rule_done
    then show ?thesis using rule_pass_nonempty[OF rule_more.hyps(1)] by simp
  next
    case (rule_more st2)
    then have "st2 = st'" using rule_pass_unique \<open>rule_pass n g st st'\<close> by blast
    then show ?thesis using rule_more rule_more.IH by blast
  qed
qed

lemma dijkstra_loop_rule_run:
  "wf_graph n g \<Longrightarrow> ordered_state n st \<Longrightarrow> dijkstra_loop n g st = Some r \<Longrightarrow>
   rule_run n g st r"
proof (induction n g st rule: dijkstra_loop.induct)
  case (1 n g st)
  show ?case
  proof (cases "q st = []")
    case True
    then have "r = st" using "1.prems"(3) by (subst (asm) dijkstra_loop.simps) simp
    then show ?thesis using True rule_done by simp
  next
    case False
    then obtain st1 where i: "iter n g st = Some st1"
      and l: "dijkstra_loop n g st1 = Some r"
      using "1.prems"(3) by (subst (asm) dijkstra_loop.simps) (auto split: option.splits)
    have o1: "ordered_state n st1" using ordered_iter[OF "1.prems"(1,2) i] .
    have rr: "rule_run n g st1 r" using "1.IH"[OF False i "1.prems"(1) o1 l] .
    from iter_least[OF "1.prems"(2) False, of g] i have "rule_pass n g st st1"
      by (auto simp: rule_pass_def)
    then show ?thesis using rr rule_more by blast
  qed
qed

lemma ordered_start:
  assumes "0 < n" "valid_source n s"
  shows "ordered_state n (start_state n s)"
  using wf_state_start[OF assms] by (simp add: ordered_state_def start_state_def)

text \<open>
  Claim C8. In every state in which the \<open>while\<close> loop tests its condition with a
  non-empty frontier, the pass extracts the frontier member that is least by
  \<open>(dist, vertex)\<close>, and relaxes the row of that member: of two members with equal \<open>dist\<close>
  the one with the smaller index is extracted first. Consequently the run is the one run
  that follows this rule: whatever the tables held before, \<open>dijkstra\<close> returns the state
  that every rule-following run from the initial state ends in, so two runs on the same
  graph and source return the same \<open>dist\<close> and \<open>previous_node\<close>.
\<close>

theorem least_member_extracted:
  assumes "wf_graph n g" and "wf_tables n d0 p0" and "valid_source n s"
  shows "(\<forall>st. loop_state n g s d0 p0 st \<and> q st \<noteq> [] \<longrightarrow>
            (\<exists>u. least_member (dist st) (q st) u \<and>
                 iter n g st = relax_loop n g u 0 (st\<lparr>q := remove1 u (q st)\<rparr>))) \<and>
         (\<exists>r. dijkstra n g s d0 p0 = Some r \<and>
              rule_run n g (start_state n s) r \<and>
              (\<forall>r'. rule_run n g (start_state n s) r' \<longrightarrow> r' = r) \<and>
              (\<forall>d1 p1. wf_tables n d1 p1 \<longrightarrow> dijkstra n g s d1 p1 = Some r))"
proof (rule conjI)
  show "\<forall>st. loop_state n g s d0 p0 st \<and> q st \<noteq> [] \<longrightarrow>
            (\<exists>u. least_member (dist st) (q st) u \<and>
                 iter n g st = relax_loop n g u 0 (st\<lparr>q := remove1 u (q st)\<rparr>))"
    using loop_state_ordered[OF assms] iter_least by blast
next
  have n: "0 < n" using assms(1) by (simp add: wf_graph_def)
  obtain r where r: "dijkstra n g s d0 p0 = Some r"
    using dijkstra_total[OF assms] by blast
  then have l: "dijkstra_loop n g (start_state n s) = Some r"
    by (simp add: dijkstra_eq[OF assms(2,3)])
  have rr: "rule_run n g (start_state n s) r"
    using dijkstra_loop_rule_run[OF assms(1) ordered_start[OF n assms(3)] l] .
  have u: "\<forall>r'. rule_run n g (start_state n s) r' \<longrightarrow> r' = r"
    using rule_run_unique[OF _ rr] by blast
  have d: "\<forall>d1 p1. wf_tables n d1 p1 \<longrightarrow> dijkstra n g s d1 p1 = Some r"
    using l assms(3) by (simp add: dijkstra_eq)
  show "\<exists>r. dijkstra n g s d0 p0 = Some r \<and>
              rule_run n g (start_state n s) r \<and>
              (\<forall>r'. rule_run n g (start_state n s) r' \<longrightarrow> r' = r) \<and>
              (\<forall>d1 p1. wf_tables n d1 p1 \<longrightarrow> dijkstra n g s d1 p1 = Some r)"
    using r rr u d by blast
qed

theorem least_member_extracted_witness:
  "wf_graph 4 [- 1, 1, 1, - 1, - 1, - 1, - 1, 1, - 1, - 1, - 1, 1, - 1, - 1, - 1, - 1] \<and>
   wf_tables 4 [0, 0, 0, 0] [0, 0, 0, 0] \<and> valid_source 4 0 \<and>
   loop_state 4 [- 1, 1, 1, - 1, - 1, - 1, - 1, 1, - 1, - 1, - 1, 1, - 1, - 1, - 1, - 1] 0
     [0, 0, 0, 0] [0, 0, 0, 0]
     \<lparr>dist = [0, 1, 1, INT_MAX], previous_node = [- 1, 0, 0, - 1], q = [1, 2]\<rparr> \<and>
   least_member [0, 1, 1, INT_MAX] [1, 2] 1 \<and>
   iter 4 [- 1, 1, 1, - 1, - 1, - 1, - 1, 1, - 1, - 1, - 1, 1, - 1, - 1, - 1, - 1]
     \<lparr>dist = [0, 1, 1, INT_MAX], previous_node = [- 1, 0, 0, - 1], q = [1, 2]\<rparr> =
   relax_loop 4 [- 1, 1, 1, - 1, - 1, - 1, - 1, 1, - 1, - 1, - 1, 1, - 1, - 1, - 1, - 1] 1 0
     \<lparr>dist = [0, 1, 1, INT_MAX], previous_node = [- 1, 0, 0, - 1], q = [2]\<rparr> \<and>
   dijkstra 4 [- 1, 1, 1, - 1, - 1, - 1, - 1, 1, - 1, - 1, - 1, 1, - 1, - 1, - 1, - 1] 0
     [0, 0, 0, 0] [0, 0, 0, 0] =
     Some \<lparr>dist = [0, 1, 1, 2], previous_node = [- 1, 0, 0, 1], q = []\<rparr> \<and>
   rule_run 4 [- 1, 1, 1, - 1, - 1, - 1, - 1, 1, - 1, - 1, - 1, 1, - 1, - 1, - 1, - 1]
     (start_state 4 0) \<lparr>dist = [0, 1, 1, 2], previous_node = [- 1, 0, 0, 1], q = []\<rparr> \<and>
   wf_tables 4 [8, 8, 8, 8] [9, 9, 9, 9] \<and>
   dijkstra 4 [- 1, 1, 1, - 1, - 1, - 1, - 1, 1, - 1, - 1, - 1, 1, - 1, - 1, - 1, - 1] 0
     [8, 8, 8, 8] [9, 9, 9, 9] =
     Some \<lparr>dist = [0, 1, 1, 2], previous_node = [- 1, 0, 0, 1], q = []\<rparr>"
proof -
  let ?g = "[- 1, 1, 1, - 1, - 1, - 1, - 1, 1, - 1, - 1, - 1, 1, - 1, - 1, - 1, - 1] :: int list"
  let ?st = "\<lparr>dist = [0, 1, 1, INT_MAX], previous_node = [- 1, 0, 0, - 1], q = [1, 2]\<rparr>"
  let ?r = "\<lparr>dist = [0, 1, 1, 2], previous_node = [- 1, 0, 0, 1], q = []\<rparr>"
  have a: "wf_graph 4 ?g" by (simp add: wf_graph_def INT_MAX_def)
  have b: "wf_tables 4 [0, 0, 0, 0] [0, 0, 0, 0]" "wf_tables 4 [8, 8, 8, 8] [9, 9, 9, 9]"
    by (simp_all add: wf_tables_def)
  have c: "valid_source 4 0" by (simp add: valid_source_def)
  note th = least_member_extracted[OF a b(1) c]
  have s0: "loop_state 4 ?g 0 [0, 0, 0, 0] [0, 0, 0, 0]
      \<lparr>dist = [0, INT_MAX, INT_MAX, INT_MAX], previous_node = [- 1, - 1, - 1, - 1], q = [0]\<rparr>"
    by (rule loop_start[where d = "[INT_MAX, INT_MAX, INT_MAX, INT_MAX]"])
       (simp_all add: run_simps)
  have s1: "loop_state 4 ?g 0 [0, 0, 0, 0] [0, 0, 0, 0] ?st"
    by (rule loop_step[OF s0]) (simp_all add: run_simps)
  from th[THEN conjunct1, rule_format, of ?st] s1 obtain u where
    u: "least_member (dist ?st) (q ?st) u"
       "iter 4 ?g ?st = relax_loop 4 ?g u 0 (?st\<lparr>q := remove1 u (q ?st)\<rparr>)"
    by auto
  have l1: "least_member [0, 1, 1, INT_MAX] [1, 2] 1"
    by (simp add: least_member_def INT_MAX_def)
  have "u = 1" using least_member_unique[OF _ l1, of u] u(1) by simp
  then have it: "iter 4 ?g ?st = relax_loop 4 ?g 1 0
      \<lparr>dist = [0, 1, 1, INT_MAX], previous_node = [- 1, 0, 0, - 1], q = [2]\<rparr>"
    using u(2) by simp
  have d: "dijkstra 4 ?g 0 [0, 0, 0, 0] [0, 0, 0, 0] = Some ?r"
    by (simp add: run_simps)
  from th[THEN conjunct2] d have rr: "rule_run 4 ?g (start_state 4 0) ?r"
    and e: "dijkstra 4 ?g 0 [8, 8, 8, 8] [9, 9, 9, 9] = Some ?r"
    using b(2) by auto
  show ?thesis
    by (intro conjI) (rule a b c s1 l1 it d rr e)+
qed

section \<open>Termination\<close>

text \<open>
  Claim C9. For a graph of \<open>number_of_nodes\<close> squared entries, tables of
  \<open>number_of_nodes\<close> entries and a source in range, \<open>dijkstra\<close> runs to completion
  without leaving the bounds of a vector: the state it returns is reached from the
  initial one by finitely many passes of the main loop, and its frontier is empty. This
  holds whatever the edge costs are, so in particular for non-negative ones.
\<close>

theorem dijkstra_terminates:
  assumes "wf_graph n g" and "wf_tables n d0 p0" and "valid_source n s"
  shows "\<exists>r. dijkstra n g s d0 p0 = Some r \<and> loop_state n g s d0 p0 r \<and> q r = []"
proof -
  have n: "0 < n" using assms(1) by (simp add: wf_graph_def)
  obtain r where r: "dijkstra n g s d0 p0 = Some r"
    using dijkstra_total[OF assms] by blast
  then have l: "dijkstra_loop n g (start_state n s) = Some r"
    by (simp add: dijkstra_eq[OF assms(2,3)])
  have "loop_state n g s d0 p0 r \<and> q r = []"
    by (rule dijkstra_loop_inv[where I = "loop_state n g s d0 p0", OF _ _ l])
       (use loop_step loop_state_start[OF assms(2,3) n] in auto)
  with r show ?thesis by simp
qed

theorem dijkstra_terminates_witness:
  "wf_graph 3 [- 1, 1, 5, - 1, - 1, 1, - 1, - 1, - 1] \<and> wf_tables 3 [0, 0, 0] [0, 0, 0] \<and>
   valid_source 3 0 \<and>
   (\<exists>r. dijkstra 3 [- 1, 1, 5, - 1, - 1, 1, - 1, - 1, - 1] 0 [0, 0, 0] [0, 0, 0] = Some r \<and>
        loop_state 3 [- 1, 1, 5, - 1, - 1, 1, - 1, - 1, - 1] 0 [0, 0, 0] [0, 0, 0] r \<and> q r = [])"
proof -
  have a: "wf_graph 3 [- 1, 1, 5, - 1, - 1, 1, - 1, - 1, - 1]"
    by (simp add: wf_graph_def INT_MAX_def)
  have b: "wf_tables 3 [0, 0, 0] [0, 0, 0]" by (simp add: wf_tables_def)
  have c: "valid_source 3 0" by (simp add: valid_source_def)
  from dijkstra_terminates[OF a b c] a b c show ?thesis by blast
qed

section \<open>Walks\<close>

lemma walk_ok_snoc:
  "walk_ok n g p \<Longrightarrow> 0 \<le> v \<Longrightarrow> v < n \<Longrightarrow> cost n g (last p) v \<noteq> - 1 \<Longrightarrow> walk_ok n g (p @ [v])"
  by (induction n g p rule: walk_ok.induct) auto



lemma reachable_self: "valid_source n s \<Longrightarrow> reachable n g s s"
  unfolding reachable_def valid_source_def by (rule exI[of _ "[]"]) simp

lemma reachable_step:
  assumes "reachable n g s u" "0 \<le> v" "v < n" "cost n g u v \<noteq> - 1"
  shows "reachable n g s v"
proof -
  from assms(1) obtain p where p: "walk_ok n g (s # p)" "last (s # p) = u"
    by (auto simp: reachable_def)
  have "walk_ok n g ((s # p) @ [v])"
    by (rule walk_ok_snoc[OF p(1) assms(2,3)]) (use p(2) assms(4) in simp)
  then have "walk_ok n g (s # (p @ [v])) \<and> last (s # (p @ [v])) = v" by simp
  then show ?thesis unfolding reachable_def by blast
qed

section \<open>Unreachable vertices are never touched\<close>

lemma reach_inv_relaxed:
  assumes r: "reach_inv n g s st" and ru: "reachable n g s u"
    and v: "0 \<le> v" "v < n" and i: "improves n g u v st"
  shows "reach_inv n g s (relaxed n g u v st)"
proof -
  have wf: "wf_state n st" using r by (simp add: reach_inv_def)
  have rv: "reachable n g s v"
    using reachable_step[OF ru v] i by (simp add: improves_def)
  have "reachable n g s x" if x: "0 \<le> x" "x < n" and t: "touched (relaxed n g u v st) x" for x
  proof (cases "x = v")
    case True
    then show ?thesis using rv by simp
  next
    case False
    then have "nat x \<noteq> nat v" using x v by simp
    moreover have "x \<in> set (q st)" if "x \<in> set (q (relaxed n g u v st))"
      using that False without_subset[of "dist st" v "q st"]
      by (auto simp: relaxed_def set_insert_set)
    ultimately have "touched st x"
      using t by (auto simp: touched_def relaxed_def)
    then show ?thesis using r x by (simp add: reach_inv_def)
  qed
  then show ?thesis
    using wf_state_relaxed[OF wf v, of g u] by (simp add: reach_inv_def)
qed

lemma reach_inv_iter:
  assumes g: "wf_graph n g" and r: "reach_inv n g s st" and i: "iter n g st = Some st'"
  shows "reach_inv n g s st'"
proof (cases "q st")
  case Nil
  then show ?thesis using r i by (simp add: iter_def)
next
  case (Cons u rest)
  have wf: "wf_state n st" using r by (simp add: reach_inv_def)
  have u: "0 \<le> u" "u < n" using wf Cons by (auto simp: wf_state_def)
  have ru: "reachable n g s u"
    using r u Cons by (simp add: reach_inv_def touched_def)
  have r': "reach_inv n g s (st\<lparr>q := rest\<rparr>)"
    using r Cons by (auto simp: reach_inv_def touched_def wf_state_def)
  have l: "relax_loop n g u 0 (st\<lparr>q := rest\<rparr>) = Some st'"
    using i Cons by (simp add: iter_def)
  show ?thesis
  proof (rule relax_loop_inv[where P = "reach_inv n g s", OF _ r' _ l])
    fix v st1 st2
    assume a: "reach_inv n g s st1" "0 \<le> v" "v < n" "relax n g u v st1 = Some st2"
    then have "wf_state n st1" by (simp add: reach_inv_def)
    from relax_eq[OF g this u a(2,3)] a(4) reach_inv_relaxed[OF a(1) ru a(2,3)] a(1)
    show "reach_inv n g s st2" by (auto split: if_splits)
  qed simp
qed

lemma reach_inv_start:
  assumes "0 < n" "valid_source n s"
  shows "reach_inv n g s (start_state n s)"
proof -
  have "reachable n g s x" if "0 \<le> x" "x < n" "touched (start_state n s) x" for x
  proof (cases "x = s")
    case True
    then show ?thesis using reachable_self[OF assms(2)] by simp
  next
    case False
    then have "nat x \<noteq> nat s" using that assms(2) by (auto simp: valid_source_def)
    then show ?thesis using that False by (simp add: touched_def start_state_def)
  qed
  then show ?thesis using wf_state_start[OF assms] by (simp add: reach_inv_def)
qed

text \<open>
  Claim C2. After \<open>dijkstra\<close>, a vertex that no walk from the source reaches still has
  \<open>dist\<close> equal to \<open>INT_MAX\<close> and \<open>previous_node\<close> equal to \<open>-1\<close>. This holds for every
  well-formed graph, so in particular when the edge costs are non-negative.
\<close>

theorem unreachable_untouched:
  assumes "wf_graph n g" and "wf_tables n d0 p0" and "valid_source n s"
    and "dijkstra n g s d0 p0 = Some r"
    and "0 \<le> v" and "v < n" and "\<not> reachable n g s v"
  shows "dist r ! nat v = INT_MAX \<and> previous_node r ! nat v = - 1"
proof -
  have n: "0 < n" using assms(1) by (simp add: wf_graph_def)
  have l: "dijkstra_loop n g (start_state n s) = Some r"
    using assms(4) by (simp add: dijkstra_eq[OF assms(2,3)])
  have "reach_inv n g s r \<and> q r = []"
    by (rule dijkstra_loop_inv[where I = "reach_inv n g s", OF _ _ l])
       (use reach_inv_iter[OF assms(1)] reach_inv_start[OF n assms(3)] in auto)
  then have "\<not> touched r v" using assms(5,6,7) by (auto simp: reach_inv_def)
  then show ?thesis by (simp add: touched_def)
qed

theorem unreachable_untouched_witness:
  "\<not> reachable 2 [- 1, - 1, 3, - 1] 0 1 \<and>
   dijkstra 2 [- 1, - 1, 3, - 1] 0 [0, 0] [0, 0] =
     Some \<lparr>dist = [0, INT_MAX], previous_node = [- 1, - 1], q = []\<rparr> \<and>
   [0, INT_MAX] ! nat 1 = INT_MAX \<and> [- 1, - 1 :: int] ! nat 1 = - 1"
proof -
  let ?g = "[- 1, - 1, 3, - 1] :: int list"
  have a: "wf_graph 2 ?g" by (simp add: wf_graph_def INT_MAX_def)
  have b: "wf_tables 2 [0, 0] [0, 0]" by (simp add: wf_tables_def)
  have c: "valid_source 2 0" by (simp add: valid_source_def)
  have d: "dijkstra 2 ?g 0 [0, 0] [0, 0] =
     Some \<lparr>dist = [0, INT_MAX], previous_node = [- 1, - 1], q = []\<rparr>"
    by (simp add: run_simps)
  have stay: "walk_ok 2 ?g (0 # p) \<Longrightarrow> p = []" for p
  proof (cases p)
    case (Cons x xs)
    assume "walk_ok 2 ?g (0 # p)"
    then have "0 \<le> x" "x < 2" "cost 2 ?g 0 x \<noteq> - 1" using Cons by auto
    moreover from this have "x = 0 \<or> x = 1" by auto
    ultimately show ?thesis by (auto simp: cost_def)
  qed simp
  have e: "\<not> reachable 2 ?g 0 1"
  proof
    assume "reachable 2 ?g 0 1"
    then obtain p where "walk_ok 2 ?g (0 # p)" "last (0 # p) = 1"
      by (auto simp: reachable_def)
    with stay[of p] show False by auto
  qed
  from unreachable_untouched[OF a b c d _ _ e] d e show ?thesis by simp
qed

section \<open>Every edge is relaxed at the end\<close>

lemma wrap32_le: "- 2147483648 \<le> x \<Longrightarrow> wrap32 x \<le> x"
proof -
  assume "- 2147483648 \<le> x"
  then have "0 \<le> x + 2147483648" by simp
  then have "(x + 2147483648) mod 4294967296 \<le> x + 2147483648"
    by (rule zmod_le_nonneg_dividend)
  then show ?thesis by (simp add: wrap32_def)
qed

lemma nonneg_cost:
  assumes "wf_graph n g" "nonneg_costs g" "0 \<le> u" "u < n" "0 \<le> v" "v < n"
    and "cost n g u v \<noteq> - 1"
  shows "0 \<le> cost n g u v"
proof -
  have n: "0 < n" and l: "int (length g) = n * n"
    using assms(1) by (auto simp: wf_graph_def)
  note b = flat_bounds[OF n assms(3-6)]
  have "nat (n * u + v) < length g" using b l by linarith
  then have "g ! nat (n * u + v) \<in> set g" by simp
  then show ?thesis using assms(2,7) by (auto simp: nonneg_costs_def list_all_iff cost_def)
qed

lemma candidate_le:
  assumes g: "wf_graph n g" "nonneg_costs g" and r: "in_int_range st" and wf: "wf_state n st"
    and u: "0 \<le> u" "u < n" and v: "0 \<le> v" "v < n" and e: "cost n g u v \<noteq> - 1"
  shows "candidate n g u v st \<le> dist st ! nat u + cost n g u v"
proof -
  have "nat u < length (dist st)" using wf u by (auto simp: wf_state_def)
  then have "dist st ! nat u \<in> set (dist st)" by simp
  then have "- 2147483648 \<le> dist st ! nat u" using r by (auto simp: in_int_range_def)
  moreover have "0 \<le> cost n g u v" using nonneg_cost[OF g u v e] .
  ultimately show ?thesis unfolding candidate_def by (intro wrap32_le) linarith
qed

lemma in_int_range_relaxed:
  assumes "in_int_range st" "improves n g u v st" "wf_state n st" "0 \<le> v" "v < n"
  shows "in_int_range (relaxed n g u v st)"
proof -
  have "nat v < length (dist st)" using assms by (auto simp: wf_state_def)
  then have "dist st ! nat v \<in> set (dist st)" by simp
  then have "dist st ! nat v \<le> INT_MAX" using assms(1) by (auto simp: in_int_range_def)
  then have "candidate n g u v st \<le> INT_MAX" using assms(2) by (simp add: improves_def)
  moreover have "- 2147483648 \<le> candidate n g u v st"
    using wrap32_range by (simp add: candidate_def)
  ultimately show ?thesis
    using assms(1) by (auto simp: in_int_range_def relaxed_def dest!: set_update_subset_insert[THEN subsetD])
qed

lemma relaxed_dist_le:
  assumes "improves n g u v st" "wf_state n st" "0 \<le> v" "v < n"
  shows "dist (relaxed n g u v st) ! x \<le> dist st ! x"
proof (cases "x = nat v")
  case True
  have "nat v < length (dist st)" using assms by (auto simp: wf_state_def)
  then show ?thesis using True assms(1) by (simp add: relaxed_def improves_def)
next
  case False
  then show ?thesis by (simp add: relaxed_def)
qed

lemma relaxed_keeps_member:
  "x \<in> set (q st) \<Longrightarrow> x \<in> set (q (relaxed n g u v st))"
  using without_keeps[of x "q st" v "dist st"] by (cases "x = v") (auto simp: relaxed_def set_insert_set)

lemma relaxed_target_member: "v \<in> set (q (relaxed n g u v st))"
  by (simp add: relaxed_def set_insert_set)

lemma settled_relaxed_other:
  assumes s: "settled_below n g st w k" and i: "improves n g u v st" and wf: "wf_state n st"
    and v: "0 \<le> v" "v < n" and w: "0 \<le> w" "w \<noteq> v"
  shows "settled_below n g (relaxed n g u v st) w k"
proof -
  have "nat w \<noteq> nat v" using w v by simp
  then have "dist (relaxed n g u v st) ! nat w = dist st ! nat w" by (simp add: relaxed_def)
  then show ?thesis
    using s relaxed_dist_le[OF i wf v] unfolding settled_below_def
    by (metis order_trans)
qed

lemma edge_inv_at_relax:
  assumes g: "wf_graph n g" "nonneg_costs g" and u: "0 \<le> u" "u < n"
    and e: "edge_inv_at n g u v st" and v: "0 \<le> v" "v < n"
    and r: "relax n g u v st = Some st'"
  shows "edge_inv_at n g u (v + 1) st'"
proof -
  have wf: "wf_state n st" and ir: "in_int_range st"
    and others: "\<And>w. 0 \<le> w \<Longrightarrow> w < n \<Longrightarrow> w \<noteq> u \<Longrightarrow> w \<notin> set (q st) \<Longrightarrow> settled_below n g st w n"
    and self: "u \<in> set (q st) \<or> settled_below n g st u v"
    using e by (auto simp: edge_inv_at_def)
  note req = relax_eq[OF g(1) wf u v]
  show ?thesis
  proof (cases "improves n g u v st")
    case False
    then have st': "st' = st" using req r by simp
    have "settled_below n g st u (v + 1)" if "settled_below n g st u v"
      unfolding settled_below_def
    proof (intro allI impI)
      fix x assume x: "0 \<le> x \<and> x < v + 1 \<and> x < n \<and> cost n g u x \<noteq> - 1"
      show "dist st ! nat x \<le> dist st ! nat u + cost n g u x"
      proof (cases "x = v")
        case True
        have "dist st ! nat v \<le> candidate n g u v st"
          using False x True by (simp add: improves_def)
        also have "\<dots> \<le> dist st ! nat u + cost n g u v"
          using candidate_le[OF g ir wf u v] x True by simp
        finally show ?thesis using True by simp
      next
        case F: False
        then show ?thesis using that x by (simp add: settled_below_def)
      qed
    qed
    then show ?thesis using e self unfolding st' edge_inv_at_def by blast
  next
    case True
    then have st': "st' = relaxed n g u v st" using req r by simp
    have wf': "wf_state n st'" unfolding st' by (rule wf_state_relaxed[OF wf v])
    have ir': "in_int_range st'" unfolding st' by (rule in_int_range_relaxed[OF ir True wf v])
    have o': "settled_below n g st' w n"
      if w: "0 \<le> w" "w < n" "w \<noteq> u" "w \<notin> set (q st')" for w
    proof -
      have "w \<noteq> v" using w(4) relaxed_target_member[of v n g u st] st' by auto
      moreover have "w \<notin> set (q st)" using w(4) relaxed_keeps_member[of w st n g u v] st' by auto
      ultimately show ?thesis
        unfolding st' using settled_relaxed_other[OF others[OF w(1,2,3)] True wf v w(1)] by simp
    qed
    have s': "u \<in> set (q st') \<or> settled_below n g st' u (v + 1)"
    proof (cases "u \<in> set (q st) \<or> u = v")
      case T: True
      then show ?thesis
        using relaxed_keeps_member[of u st n g u v] relaxed_target_member[of v n g u st] st' by auto
    next
      case F: False
      then have sb: "settled_below n g st u v" and uv: "u \<noteq> v" using self by auto
      have sb': "settled_below n g st' u v"
        unfolding st' by (rule settled_relaxed_other[OF sb True wf v u(1) uv])
      have nu: "nat u \<noteq> nat v" using uv u v by simp
      have lv: "nat v < length (dist st)" using wf v by (auto simp: wf_state_def)
      have du: "dist st' ! nat u = dist st ! nat u" unfolding st' using nu by (simp add: relaxed_def)
      have dv: "dist st' ! nat v = candidate n g u v st" unfolding st' using lv by (simp add: relaxed_def)
      have ce: "cost n g u v \<noteq> - 1" using True by (simp add: improves_def)
      have "dist st' ! nat v \<le> dist st' ! nat u + cost n g u v"
        using candidate_le[OF g ir wf u v ce] du dv by simp
      then have "settled_below n g st' u (v + 1)"
        using sb' unfolding settled_below_def
        by (metis add.commute less_le not_less zless_add1_eq)
      then show ?thesis by simp
    qed
    show ?thesis using wf' ir' o' s' by (auto simp: edge_inv_at_def)
  qed
qed

lemma edge_inv_iter:
  assumes g: "wf_graph n g" "nonneg_costs g" and e: "edge_inv n g st"
    and i: "iter n g st = Some st'"
  shows "edge_inv n g st'"
proof (cases "q st")
  case Nil
  then show ?thesis using e i by (simp add: iter_def)
next
  case (Cons u rest)
  have wf: "wf_state n st" using e by (simp add: edge_inv_def)
  have u: "0 \<le> u" "u < n" using wf Cons by (auto simp: wf_state_def)
  have l: "relax_loop n g u 0 (st\<lparr>q := rest\<rparr>) = Some st'"
    using i Cons by (simp add: iter_def)
  have e0: "edge_inv_at n g u 0 (st\<lparr>q := rest\<rparr>)"
    using e Cons by (auto simp: edge_inv_def edge_inv_at_def wf_state_def in_int_range_def
        settled_below_def)
  have "edge_inv_at n g u n st'"
    by (rule relax_loop_inv_idx[where P = "edge_inv_at n g u", OF _ e0 _ _ l])
       (use edge_inv_at_relax[OF g u] u in auto)
  then show ?thesis by (auto simp: edge_inv_def edge_inv_at_def)
qed

lemma edge_inv_start:
  assumes g: "wf_graph n g" "nonneg_costs g" and s: "valid_source n s"
  shows "edge_inv n g (start_state n s)"
proof -
  have n: "0 < n" using g(1) by (simp add: wf_graph_def)
  have r: "in_int_range (start_state n s)"
    by (auto simp: in_int_range_def start_state_def INT_MAX_def
        dest!: set_update_subset_insert[THEN subsetD])
  have "settled_below n g (start_state n s) u n" if u: "0 \<le> u" "u < n" "u \<noteq> s" for u
    unfolding settled_below_def
  proof (intro allI impI)
    fix v assume v: "0 \<le> v \<and> v < n \<and> v < n \<and> cost n g u v \<noteq> - 1"
    have "nat u \<noteq> nat s" using u s by (auto simp: valid_source_def)
    then have du: "dist (start_state n s) ! nat u = INT_MAX"
      using u by (simp add: start_state_def)
    have "nat v < length (dist (start_state n s))" using v by (simp add: start_state_def)
    then have "dist (start_state n s) ! nat v \<in> set (dist (start_state n s))" by simp
    then have "dist (start_state n s) ! nat v \<le> INT_MAX"
      using r by (auto simp: in_int_range_def)
    moreover have "0 \<le> cost n g u v" using nonneg_cost[OF g u(1,2)] v by simp
    ultimately show "dist (start_state n s) ! nat v \<le> dist (start_state n s) ! nat u + cost n g u v"
      using du by simp
  qed
  then show ?thesis
    using wf_state_start[OF n s] r by (auto simp: edge_inv_def start_state_def)
qed

text \<open>
  Claim C4. When \<open>dijkstra\<close> returns on a graph with non-negative costs, every real edge
  \<open>(u, v)\<close> of cost \<open>c\<close> satisfies \<open>dist[v] \<le> dist[u] + c\<close>, the sum taken in exact
  arithmetic.
\<close>

theorem edges_relaxed:
  assumes "wf_graph n g" and "nonneg_costs g" and "wf_tables n d0 p0" and "valid_source n s"
    and "dijkstra n g s d0 p0 = Some r"
    and "0 \<le> u" and "u < n" and "0 \<le> v" and "v < n" and "cost n g u v \<noteq> - 1"
  shows "dist r ! nat v \<le> dist r ! nat u + cost n g u v"
proof -
  have l: "dijkstra_loop n g (start_state n s) = Some r"
    using assms(5) by (simp add: dijkstra_eq[OF assms(3,4)])
  have "edge_inv n g r \<and> q r = []"
    by (rule dijkstra_loop_inv[where I = "edge_inv n g", OF _ _ l])
       (use edge_inv_iter[OF assms(1,2)] edge_inv_start[OF assms(1,2,4)] in auto)
  then have "settled_below n g r u n" using assms(6,7) by (simp add: edge_inv_def)
  then show ?thesis using assms(8,9,10) by (simp add: settled_below_def)
qed

theorem edges_relaxed_witness:
  "dijkstra 3 [- 1, 1, 5, - 1, - 1, 1, - 1, - 1, - 1] 0 [0, 0, 0] [0, 0, 0] =
     Some \<lparr>dist = [0, 1, 2], previous_node = [- 1, 0, 1], q = []\<rparr> \<and>
   cost 3 [- 1, 1, 5, - 1, - 1, 1, - 1, - 1, - 1] 0 2 = 5 \<and>
   [0, 1, 2 :: int] ! nat 2 \<le> [0, 1, 2] ! nat 0 + 5"
proof -
  let ?g = "[- 1, 1, 5, - 1, - 1, 1, - 1, - 1, - 1] :: int list"
  have a: "wf_graph 3 ?g" by (simp add: wf_graph_def INT_MAX_def)
  have a': "nonneg_costs ?g" by (simp add: nonneg_costs_def)
  have b: "wf_tables 3 [0, 0, 0] [0, 0, 0]" by (simp add: wf_tables_def)
  have c: "valid_source 3 0" by (simp add: valid_source_def)
  have d: "dijkstra 3 ?g 0 [0, 0, 0] [0, 0, 0] =
     Some \<lparr>dist = [0, 1, 2], previous_node = [- 1, 0, 1], q = []\<rparr>"
    by (simp add: run_simps)
  have e: "cost 3 ?g 0 2 = 5" by (simp add: cost_def)
  from edges_relaxed[OF a a' b c d, of 0 2] d e show ?thesis by simp
qed

section \<open>The state after a relaxation\<close>






section \<open>Walks to the extracted vertices\<close>




section \<open>Extraction keeps the invariant\<close>



section \<open>A relaxation keeps the invariant\<close>





section \<open>A sufficient bound on the costs\<close>




section \<open>Following \<open>previous_node\<close> back to the source\<close>





section \<open>The source\<close>




section \<open>Predecessor chains\<close>




section \<open>Exact distances\<close>














section \<open>Sizing and reading the graph\<close>

lemma small_square:
  assumes "0 < (n::int)" "n < max_nodes"
  shows "0 < n * n" "n * n \<le> INT_MAX" "wrap32 (n * n) = n * n"
proof -
  have n: "n \<le> 127" using assms by (simp add: max_nodes_def)
  have "n * n \<le> 127 * 127" using assms(1) n by (intro mult_mono) auto
  then show b: "n * n \<le> INT_MAX" by (simp add: INT_MAX_def)
  show p: "0 < n * n" using assms(1) by simp
  show "wrap32 (n * n) = n * n" using b p by (intro wrap32_id) (auto simp: INT_MAX_def)
qed

lemma load_loop_effect:
  "load_loop n ws i g toks eof fail v = Some g' \<Longrightarrow> 0 \<le> i \<Longrightarrow>
   list_all plain_token toks \<Longrightarrow> (fail \<longrightarrow> eof) \<Longrightarrow>
   length g' = length g \<and>
   (\<forall>j. j < nat i \<or>
        nat i + (if eof then 0 else length toks + (if toks = [] \<or> ws then 1 else 0)) \<le> j \<longrightarrow>
        g' ! j = g ! j)"
proof (induction n ws i g toks eof fail v arbitrary: g' rule: load_loop.induct)
  case (1 n ws i g toks eof fail v)
  show ?case
  proof (cases "i < wrap32 (n * n) \<and> \<not> eof")
    case False
    then have "g' = g" using "1.prems"(1) by (subst (asm) load_loop.simps) (auto split: if_splits)
    then show ?thesis by simp
  next
    case True
    then have nf: "\<not> fail" using "1.prems"(4) by simp
    have s: "nat (i + 1) = Suc (nat i)" using "1.prems"(2) by simp
    show ?thesis
    proof (cases toks)
      case Nil
      have ex: "extract_int ws toks eof fail v = ([], True, True, v)"
        using Nil True nf by (simp add: extract_int_def)
      with True "1.prems"(1) obtain x g1 where x: "v = Some x"
        and g1: "GraphSet_linear g i x = Some g1"
        and l: "load_loop n ws (i + 1) g1 [] True True v = Some g'"
        by (subst (asm) load_loop.simps) (auto split: option.splits simp: bind_eq_Some_conv)
      have e: "g1 = g[nat i := x]"
        using g1 by (auto simp: GraphSet_linear_def vset_def split: if_splits)
      have "length g' = length g1 \<and>
        (\<forall>j. j < nat (i + 1) \<or> nat (i + 1) + (if True then 0 else length ([] :: token list) +
             (if ([] :: token list) = [] \<or> ws then 1 else 0)) \<le> j \<longrightarrow> g' ! j = g1 ! j)"
        by (rule "1.IH"[OF _ _ ex[symmetric] refl refl x g1 l]) (use True "1.prems"(2) in auto)
      then show ?thesis using e Nil True s by auto
    next
      case (Cons t ts)
      then have pt: "plain_token t" and pts: "list_all plain_token ts"
        using "1.prems"(3) by simp_all
      from pt obtain x where t: "t = Num x" and xr: "- 2147483648 \<le> x" "x \<le> INT_MAX"
        by (cases t) (auto simp: plain_token_def)
      have ex: "extract_int ws toks eof fail v = (ts, ts = [] \<and> \<not> ws, False, Some x)"
        using Cons t xr True nf by (simp add: extract_int_def)
      with True "1.prems"(1) obtain g1 where
        g1: "GraphSet_linear g i x = Some g1"
        and l: "load_loop n ws (i + 1) g1 ts (ts = [] \<and> \<not> ws) False (Some x) = Some g'"
        by (subst (asm) load_loop.simps) (auto simp: bind_eq_Some_conv)
      have e: "g1 = g[nat i := x]"
        using g1 by (auto simp: GraphSet_linear_def vset_def split: if_splits)
      have ih: "length g' = length g1 \<and>
        (\<forall>j. j < nat (i + 1) \<or>
          nat (i + 1) + (if ts = [] \<and> \<not> ws then 0
                         else length ts + (if ts = [] \<or> ws then 1 else 0)) \<le> j \<longrightarrow>
          g' ! j = g1 ! j)"
        by (rule "1.IH"[OF _ _ ex[symmetric] refl refl refl g1 l])
           (use True "1.prems"(2) pts in auto)
      have "g' ! j = g ! j"
        if "j < nat i \<or> nat i + (length toks + (if toks = [] \<or> ws then 1 else 0)) \<le> j" for j
      proof -
        have "j < nat (i + 1) \<or>
          nat (i + 1) + (if ts = [] \<and> \<not> ws then 0
                         else length ts + (if ts = [] \<or> ws then 1 else 0)) \<le> j"
          using that Cons s by (auto split: if_splits)
        then have "g' ! j = g1 ! j" using ih by blast
        moreover have "j \<noteq> nat i" using that Cons by auto
        ultimately show ?thesis using e by simp
      qed
      then show ?thesis using ih e True by simp
    qed
  qed
qed

lemma load_graph_effect:
  assumes n: "0 < n" "n < max_nodes" and p: "list_all plain_token toks"
    and l: "load_graph n toks ws = Some g"
  shows "length g = nat (n * n)"
    and "\<forall>j. length toks + (if ws then 1 else 0) \<le> j \<and> j < nat (n * n) \<longrightarrow> g ! j = 0"
proof -
  note sq = small_square[OF n]
  have c: "create_graph n = replicate (nat (n * n)) 0"
    by (simp add: create_graph_def sq(3))
  from load_loop_effect[OF l[unfolded load_graph_def] _ p]
  have e: "length g = length (create_graph n)"
    "\<And>j. (if toks = [] \<and> \<not> ws then 0 else length toks + (if toks = [] \<or> ws then 1 else 0)) \<le> j
        \<Longrightarrow> g ! j = create_graph n ! j"
    by auto
  show "length g = nat (n * n)" using e(1) c by simp
  show "\<forall>j. length toks + (if ws then 1 else 0) \<le> j \<and> j < nat (n * n) \<longrightarrow> g ! j = 0"
  proof (intro allI impI)
    fix j assume j: "length toks + (if ws then 1 else 0) \<le> j \<and> j < nat (n * n)"
    then have "(if toks = [] \<and> \<not> ws then 0 else length toks + (if toks = [] \<or> ws then 1 else 0)) \<le> j"
      by (auto split: if_splits)
    from e(2)[OF this] show "g ! j = 0" using c j by simp
  qed
qed

text \<open>
  Two files that are not truncated but malformed. A literal too large for \<open>int\<close> is
  stored as \<open>INT_MAX\<close> and leaves the stream failed but not at its end, so the loop goes
  on and stores the same value into every later entry; text that is no integer stores
  \<open>0\<close> into every entry from there on.
\<close>

lemma load_graph_malformed:
  "load_graph 2 [Num 99999999999, Num 5] False = Some [INT_MAX, INT_MAX, INT_MAX, INT_MAX]"
  "load_graph 2 [Num 3, Junk, Num 5] True = Some [3, 0, 0, 0]"
  by (simp_all add: load_simps)

text \<open>
  Claim C6 as stated fails: \<open>resize\<close> fills the matrix with \<open>0\<close>, not with the "no edge"
  mark \<open>-1\<close>, and an entry that the truncated file never reaches keeps that \<open>0\<close>, which
  \<open>GraphGet\<close> hands to \<open>dijkstra\<close> as an edge of cost 0.
\<close>

theorem unread_entries_counterexample:
  "GraphGet 2 (create_graph 2) 1 1 = Some 0 \<and> no_edge = - 1 \<and>
   load_graph 2 [Num 7] False = Some [7, 0, 0, 0]"
  by (simp add: load_simps GraphGet_def flat_index_def vget_def no_edge_def)

text \<open>
  Claim C6, amended. After \<open>main\<close> has sized the matrix for \<open>number_of_nodes\<close> vertices
  (\<open>0 < number_of_nodes < max_nodes\<close>), every one of the \<open>number_of_nodes\<close> squared entries
  is \<open>0\<close>, which is not the "no edge" mark. When the file holds integers that \<open>int\<close> can
  hold and ends before all entries are read, every entry that the reading loop has not
  stored into (one entry more than the integers read is stored, when white space ends
  the file) still is \<open>0\<close>.
\<close>

theorem unread_entries_zero:
  assumes "0 < n" and "n < max_nodes" and "list_all plain_token toks"
  shows "length (create_graph n) = nat (n * n) \<and>
         (\<forall>j < nat (n * n). create_graph n ! j = 0) \<and> no_edge \<noteq> 0 \<and>
         (\<forall>g. load_graph n toks ws = Some g \<longrightarrow>
            length g = nat (n * n) \<and>
            (\<forall>j. length toks + (if ws then 1 else 0) \<le> j \<and> j < nat (n * n) \<longrightarrow> g ! j = 0))"
proof -
  have c: "create_graph n = replicate (nat (n * n)) 0"
    by (simp add: create_graph_def small_square(3)[OF assms(1,2)])
  show ?thesis
    using c load_graph_effect[OF assms] by (auto simp: no_edge_def)
qed

theorem unread_entries_zero_witness:
  "(0 :: int) < 2 \<and> (2 :: int) < max_nodes \<and> list_all plain_token [Num 7, Num 8] \<and>
   load_graph 2 [Num 7, Num 8] True = Some [7, 8, 8, 0] \<and>
   length (create_graph 2) = nat (2 * 2) \<and> create_graph 2 ! 3 = 0 \<and>
   length [7, 8, 8, 0 :: int] = nat (2 * 2) \<and> [7, 8, 8, 0 :: int] ! 3 = 0"
proof -
  have a: "(0 :: int) < 2" "(2 :: int) < max_nodes" by (simp_all add: max_nodes_def)
  have p: "list_all plain_token [Num 7, Num 8]" by (simp add: plain_token_def INT_MAX_def)
  have l: "load_graph 2 [Num 7, Num 8] True = Some [7, 8, 8, 0]"
    by (simp add: load_simps)
  note th = unread_entries_zero[OF a p, of True]
  from th have "create_graph 2 ! 3 = 0" by simp
  moreover from th l have "[7, 8, 8, 0 :: int] ! 3 = 0" by simp
  ultimately show ?thesis using th a p l by simp
qed

section \<open>A source out of range\<close>

lemma dijkstra_unfold:
  assumes "init_loop n 0 d0 p0 = Some (d, p)" "0 \<le> s" "s < int (length d)"
  shows "dijkstra n g s d0 p0 =
    dijkstra_loop n g \<lparr>dist = d[nat s := 0], previous_node = p, q = [s]\<rparr>"
  using assms by (simp add: dijkstra_def vset_def q_insert_def keys_ok_def)

lemma dijkstra_invalid_source:
  assumes t: "wf_tables n d0 p0" and n: "0 \<le> n" and s: "\<not> valid_source n s"
  shows "init_loop n 0 d0 p0 = Some (replicate (nat n) INT_MAX, replicate (nat n) (- 1))"
    and "dijkstra n g s d0 p0 = None"
proof -
  show i: "init_loop n 0 d0 p0 = Some (replicate (nat n) INT_MAX, replicate (nat n) (- 1))"
    using init_loop_eq[OF t n] .
  have "vset (replicate (nat n) INT_MAX) s 0 = None"
    using s n by (auto simp: vset_def valid_source_def)
  then show "dijkstra n g s d0 p0 = None" by (simp add: dijkstra_def i)
qed

text \<open>
  Claim C5 as stated fails. With no vertex at all the source 0 is out of range, and the
  call returns normally, having overwritten \<open>dist[0]\<close>. With two vertices, tables of two
  entries and the source 2, the first loop of \<open>dijkstra\<close> overwrites both tables before
  the source is looked at; the store \<open>dist[2] = 0\<close> then falls outside the vector, which
  is no \<open>InvalidSource\<close> failure and has not left the tables as they were.
\<close>

theorem invalid_source_counterexample:
  "\<not> valid_source 0 0 \<and>
   dijkstra 0 [] 0 [5] [6] = Some \<lparr>dist = [0], previous_node = [6], q = []\<rparr> \<and>
   \<not> valid_source 2 2 \<and>
   init_loop 2 0 [5, 5] [6, 6] = Some ([INT_MAX, INT_MAX], [- 1, - 1]) \<and>
   vset [INT_MAX, INT_MAX] 2 0 = None \<and>
   dijkstra 2 [- 1, 5, - 1, - 1] 2 [5, 5] [6, 6] = None"
  by (simp add: valid_source_def run_simps)

text \<open>
  Claim C5, amended. \<open>dijkstra\<close> never fails with \<open>InvalidSource\<close>: it does not compare
  its source with \<open>number_of_nodes\<close>. Whenever the store \<open>dist[s] = 0\<close> falls inside the
  vector the run goes on with \<open>s\<close> as its source. For a source outside
  \<open>[0, number_of_nodes)\<close> and tables of \<open>number_of_nodes\<close> entries, the first loop resets
  both tables and the store \<open>dist[s] = 0\<close> then falls outside the vector (undefined
  behaviour). The program never makes such a call: \<open>main\<close> replaces a source out of range
  by \<open>0\<close>, and the call it makes completes.
\<close>

theorem source_not_checked:
  assumes "\<not> valid_source n s"
  shows "(\<forall>d p. init_loop n 0 d0 p0 = Some (d, p) \<and> 0 \<le> s \<and> s < int (length d) \<longrightarrow>
            dijkstra n g s d0 p0 =
              dijkstra_loop n g \<lparr>dist = d[nat s := 0], previous_node = p, q = [s]\<rparr>) \<and>
         (wf_tables n d0 p0 \<and> 0 \<le> n \<longrightarrow>
            init_loop n 0 d0 p0 = Some (replicate (nat n) INT_MAX, replicate (nat n) (- 1)) \<and>
            dijkstra n g s d0 p0 = None) \<and>
         main_source n s = 0 \<and>
         (wf_graph n g \<longrightarrow>
            (\<exists>r. dijkstra n g (main_source n s) (create_table n) (create_table n) = Some r))"
proof (intro conjI allI impI)
  fix d p
  assume "init_loop n 0 d0 p0 = Some (d, p) \<and> 0 \<le> s \<and> s < int (length d)"
  then show "dijkstra n g s d0 p0 =
      dijkstra_loop n g \<lparr>dist = d[nat s := 0], previous_node = p, q = [s]\<rparr>"
    using dijkstra_unfold by blast
next
  assume a: "wf_tables n d0 p0 \<and> 0 \<le> n"
  then show "init_loop n 0 d0 p0 = Some (replicate (nat n) INT_MAX, replicate (nat n) (- 1))"
    "dijkstra n g s d0 p0 = None"
    using dijkstra_invalid_source[OF _ _ assms] by blast+
next
  show m: "main_source n s = 0" using assms by (auto simp: main_source_def valid_source_def)
  assume g: "wf_graph n g"
  then have n: "0 < n" by (simp add: wf_graph_def)
  have t: "wf_tables n (create_table n) (create_table n)"
    using n by (simp add: wf_tables_def create_table_def)
  have "valid_source n 0" using n by (simp add: valid_source_def)
  from dijkstra_total[OF g t this] m
  show "\<exists>r. dijkstra n g (main_source n s) (create_table n) (create_table n) = Some r"
    by simp
qed

theorem source_not_checked_witness:
  "\<not> valid_source 2 2 \<and> wf_tables 2 [5, 5] [6, 6] \<and> wf_graph 2 [- 1, 5, - 1, - 1] \<and>
   init_loop 2 0 [5, 5] [6, 6] = Some (replicate (nat 2) INT_MAX, replicate (nat 2) (- 1)) \<and>
   dijkstra 2 [- 1, 5, - 1, - 1] 2 [5, 5] [6, 6] = None \<and>
   main_source 2 2 = 0 \<and>
   (\<exists>r. dijkstra 2 [- 1, 5, - 1, - 1] (main_source 2 2) (create_table 2) (create_table 2) = Some r) \<and>
   \<not> valid_source 0 0 \<and> init_loop 0 0 [5] [6] = Some ([5], [6]) \<and>
   dijkstra 0 [] 0 [5] [6] =
     dijkstra_loop 0 [] \<lparr>dist = [5][nat 0 := 0], previous_node = [6], q = [0]\<rparr>"
proof -
  have a: "\<not> valid_source 2 2" "\<not> valid_source 0 0" by (simp_all add: valid_source_def)
  have t: "wf_tables 2 [5, 5] [6, 6]" by (simp add: wf_tables_def)
  have g: "wf_graph 2 [- 1, 5, - 1, - 1]" by (simp add: wf_graph_def INT_MAX_def)
  have i: "init_loop 0 0 [5] [6] = Some ([5], [6])" by (simp add: init_loop.simps)
  note th2 = source_not_checked[OF a(1), of "[5, 5]" "[6, 6]" "[- 1, 5, - 1, - 1]"]
  note th0 = source_not_checked[OF a(2), of "[5]" "[6]" "[]"]
  have r1: "init_loop 2 0 [5, 5] [6, 6] = Some (replicate (nat 2) INT_MAX, replicate (nat 2) (- 1))"
    "dijkstra 2 [- 1, 5, - 1, - 1] 2 [5, 5] [6, 6] = None"
    using th2[THEN conjunct2, THEN conjunct1] t by simp_all
  have r2: "main_source 2 2 = 0"
    using th2[THEN conjunct2, THEN conjunct2, THEN conjunct1] .
  have r3: "\<exists>r. dijkstra 2 [- 1, 5, - 1, - 1] (main_source 2 2) (create_table 2) (create_table 2) = Some r"
    using th2[THEN conjunct2, THEN conjunct2, THEN conjunct2] g by blast
  have r4: "dijkstra 0 [] 0 [5] [6] =
     dijkstra_loop 0 [] \<lparr>dist = [5][nat 0 := 0], previous_node = [6], q = [0]\<rparr>"
    using th0[THEN conjunct1, rule_format, of "[5]" "[6]"] i by simp
  show ?thesis
    by (intro conjI) (rule a t g r1 r2 r3 i r4)+
qed

end
